theory Spec2Isabelle
  imports Main "HOL-Library.Sublist"
begin

section \<open>Go strings and the library functions the program calls\<close>

text \<open>
  A Go string is a sequence of bytes, so it is a \<^typ>\<open>string\<close> here (a list of 8-bit
  characters); text beyond ASCII is its UTF-8 encoding. The functions of this section are
  the ones of the packages \<^verbatim>\<open>strings\<close>, \<^verbatim>\<open>strconv\<close> and \<^verbatim>\<open>fmt\<close> that \<^verbatim>\<open>main.go\<close> calls, with
  the behaviour their documentation gives them. Go's \<^verbatim>\<open>int\<close> is taken to be 64 bits wide.
\<close>

text \<open>\<^verbatim>\<open>strings.Index(s, sub)\<close>: the position of the first occurrence, or -1.\<close>

fun Index :: "string \<Rightarrow> string \<Rightarrow> int" where
  "Index [] sub = (if sub = [] then 0 else - 1)"
| "Index (c # cs) sub =
     (if prefix sub (c # cs) then 0
      else (let i = Index cs sub in if i < 0 then - 1 else i + 1))"

lemma Index_bound: "0 \<le> Index s sub \<Longrightarrow> nat (Index s sub) + length sub \<le> length s"
proof (induction s)
  case Nil
  then show ?case by (simp split: if_splits)
next
  case (Cons c cs)
  show ?case
  proof (cases "prefix sub (c # cs)")
    case True
    then show ?thesis using prefix_length_le [of sub "c # cs"] by simp
  next
    case False
    with Cons show ?thesis by (auto simp: Let_def split: if_splits)
  qed
qed

definition Contains :: "string \<Rightarrow> string \<Rightarrow> bool" where
  "Contains s sub = (0 \<le> Index s sub)"

definition ContainsAny :: "string \<Rightarrow> string \<Rightarrow> bool" where
  "ContainsAny s chars = (\<exists>c \<in> set s. c \<in> set chars)"

definition HasPrefix :: "string \<Rightarrow> string \<Rightarrow> bool" where
  "HasPrefix s p = prefix p s"

definition HasSuffix :: "string \<Rightarrow> string \<Rightarrow> bool" where
  "HasSuffix s p = suffix p s"

text \<open>
  A slice expression \<^verbatim>\<open>s[lo:hi]\<close> on a string panics unless \<^verbatim>\<open>0 <= lo <= hi <= len(s)\<close>;
  \<open>None\<close> is that panic.
\<close>

definition slice :: "string \<Rightarrow> int \<Rightarrow> int \<Rightarrow> string option" where
  "slice s lo hi =
     (if 0 \<le> lo \<and> lo \<le> hi \<and> hi \<le> int (length s)
      then Some (take (nat (hi - lo)) (drop (nat lo) s))
      else None)"

text \<open>
  \<^verbatim>\<open>strings.Split(s, sep)\<close> for a separator that is not empty: the pieces between the
  occurrences of \<open>sep\<close>, found from the left. The program only splits on \<^verbatim>\<open>"."\<close> and on
  the newline; with an empty separator Go cuts after each UTF-8 sequence, which is given
  here for single bytes.
\<close>

function Split :: "string \<Rightarrow> string \<Rightarrow> string list" where
  "Split s sep =
     (if sep = [] then map (\<lambda>c. [c]) s
      else if Index s sep < 0 then [s]
      else take (nat (Index s sep)) s # Split (drop (nat (Index s sep) + length sep) s) sep)"
  by pat_completeness auto
termination
proof (relation "measure (\<lambda>(s, sep). length s)")
  show "wf (measure (\<lambda>(s, sep). length s))" by simp
next
  fix s sep :: string
  assume sep: "sep \<noteq> []" and ix: "\<not> Index s sep < 0"
  from ix have "nat (Index s sep) + length sep \<le> length s" by (simp add: Index_bound)
  moreover from sep have "0 < length sep" by simp
  ultimately have "length s - (nat (Index s sep) + length sep) < length s" by linarith
  then show "((drop (nat (Index s sep) + length sep) s, sep), s, sep)
      \<in> measure (\<lambda>(s, sep). length s)"
    by simp
qed

text \<open>\<^verbatim>\<open>strings.Join(elems, sep)\<close>.\<close>

fun Join :: "string list \<Rightarrow> string \<Rightarrow> string" where
  "Join [] sep = []"
| "Join [x] sep = x"
| "Join (x # y # ys) sep = x @ sep @ Join (y # ys) sep"

text \<open>
  \<^verbatim>\<open>strings.ReplaceAll(s, old, new)\<close> for an \<open>old\<close> of one byte, which is how the program
  calls it.
\<close>

fun ReplaceAll :: "string \<Rightarrow> char \<Rightarrow> string \<Rightarrow> string" where
  "ReplaceAll [] old new = []"
| "ReplaceAll (c # cs) old new =
     (if c = old then new @ ReplaceAll cs old new else c # ReplaceAll cs old new)"

text \<open>
  \<^verbatim>\<open>strings.TrimSpace\<close> removes the leading and trailing white space of Unicode: the
  ASCII characters tab, newline, vertical tab, form feed, carriage return and space, and
  the code points U+0085, U+00A0, U+1680, U+2000 to U+200A, U+2028, U+2029, U+202F, U+205F
  and U+3000, each in its UTF-8 encoding.
\<close>

definition space_encodings :: "string list" where
  "space_encodings =
     [[CHR 0x09], [CHR 0x0A], [CHR 0x0B], [CHR 0x0C], [CHR 0x0D], [CHR 0x20],
      [CHR 0xC2, CHR 0x85], [CHR 0xC2, CHR 0xA0], [CHR 0xE1, CHR 0x9A, CHR 0x80],
      [CHR 0xE2, CHR 0x80, CHR 0x80], [CHR 0xE2, CHR 0x80, CHR 0x81],
      [CHR 0xE2, CHR 0x80, CHR 0x82], [CHR 0xE2, CHR 0x80, CHR 0x83],
      [CHR 0xE2, CHR 0x80, CHR 0x84], [CHR 0xE2, CHR 0x80, CHR 0x85],
      [CHR 0xE2, CHR 0x80, CHR 0x86], [CHR 0xE2, CHR 0x80, CHR 0x87],
      [CHR 0xE2, CHR 0x80, CHR 0x88], [CHR 0xE2, CHR 0x80, CHR 0x89],
      [CHR 0xE2, CHR 0x80, CHR 0x8A], [CHR 0xE2, CHR 0x80, CHR 0xA8],
      [CHR 0xE2, CHR 0x80, CHR 0xA9], [CHR 0xE2, CHR 0x80, CHR 0xAF],
      [CHR 0xE2, CHR 0x81, CHR 0x9F], [CHR 0xE3, CHR 0x80, CHR 0x80]]"

text \<open>The length of the white-space character a string starts with, 0 when it starts with none.\<close>

definition leading_space :: "string \<Rightarrow> nat" where
  "leading_space s =
     (case List.find (\<lambda>e. prefix e s) space_encodings of None \<Rightarrow> 0 | Some e \<Rightarrow> length e)"

lemma leading_space_le: "leading_space s \<le> length s"
  unfolding leading_space_def
  by (auto split: option.splits simp: find_Some_iff dest: prefix_length_le)

function TrimLeft :: "string \<Rightarrow> string" where
  "TrimLeft s = (if leading_space s = 0 then s else TrimLeft (drop (leading_space s) s))"
  by pat_completeness auto
termination
proof (relation "measure length")
  show "wf (measure length)" by simp
next
  fix s :: string
  assume "leading_space s \<noteq> 0"
  with leading_space_le [of s] show "(drop (leading_space s) s, s) \<in> measure length"
    by simp
qed

text \<open>
  Trimming on the right decodes the last character of the string, which is a white-space
  character exactly when the string ends with one of the encodings.
\<close>

definition trailing_space :: "string \<Rightarrow> nat" where
  "trailing_space s =
     (case List.find (\<lambda>e. suffix e s) space_encodings of None \<Rightarrow> 0 | Some e \<Rightarrow> length e)"

lemma trailing_space_le: "trailing_space s \<le> length s"
  unfolding trailing_space_def
  by (auto split: option.splits simp: find_Some_iff dest: suffix_length_le)

function TrimRight :: "string \<Rightarrow> string" where
  "TrimRight s =
     (if trailing_space s = 0 then s else TrimRight (take (length s - trailing_space s) s))"
  by pat_completeness auto
termination
proof (relation "measure length")
  show "wf (measure length)" by simp
next
  fix s :: string
  assume "trailing_space s \<noteq> 0"
  with trailing_space_le [of s]
  show "(take (length s - trailing_space s) s, s) \<in> measure length"
    by simp
qed

definition TrimSpace :: "string \<Rightarrow> string" where
  "TrimSpace s = TrimRight (TrimLeft s)"

text \<open>The verb \<^verbatim>\<open>%d\<close> of \<^verbatim>\<open>fmt\<close>: a number in decimal.\<close>

function decimal :: "nat \<Rightarrow> string" where
  "decimal n =
     (if n < 10 then [''0123456789'' ! n]
      else decimal (n div 10) @ [''0123456789'' ! (n mod 10)])"
  by pat_completeness auto
termination
  by (relation "measure id") auto

definition Sprintf_d :: "int \<Rightarrow> string" where
  "Sprintf_d i = (if i < 0 then CHR ''-'' # decimal (nat (- i)) else decimal (nat i))"

text \<open>
  \<^verbatim>\<open>strconv.Atoi\<close>, of which the program keeps the number and drops the error. A string
  that is not a number gives 0; a string of digits too large for an \<^verbatim>\<open>int\<close> gives the
  largest (smallest) \<^verbatim>\<open>int\<close>, and the scan stops at the digit that overflows, before any
  character after it is looked at. The flag of the result says whether an error came
  with it.
\<close>

definition is_digit :: "char \<Rightarrow> bool" where
  "is_digit c = (c \<in> set ''0123456789'')"

definition digit_val :: "char \<Rightarrow> nat" where
  "digit_val c = nat (Index ''0123456789'' [c])"

datatype scan = Number nat | SyntaxError | RangeError

text \<open>\<^verbatim>\<open>strconv.ParseUint(s, 10, 64)\<close> on what follows the sign, \<open>n\<close> the number read so far.\<close>

fun scan_digits :: "nat \<Rightarrow> string \<Rightarrow> scan" where
  "scan_digits n [] = Number n"
| "scan_digits n (c # cs) =
     (if \<not> is_digit c then SyntaxError
      else if n \<ge> (2 ^ 64 - 1) div 10 + 1 then RangeError
      else if n * 10 + digit_val c > 2 ^ 64 - 1 then RangeError
      else scan_digits (n * 10 + digit_val c) cs)"

definition Atoi :: "string \<Rightarrow> int \<times> bool" where
  "Atoi s =
     (let neg = (s \<noteq> [] \<and> hd s = CHR ''-'');
          body = (if s \<noteq> [] \<and> (hd s = CHR ''-'' \<or> hd s = CHR ''+'') then tl s else s)
      in if body = [] then (0, True)
         else (case scan_digits 0 body of
                 SyntaxError \<Rightarrow> (0, True)
               | RangeError \<Rightarrow> (if neg then - (2 ^ 63) else 2 ^ 63 - 1, True)
               | Number n \<Rightarrow>
                   if \<not> neg \<and> n \<ge> 2 ^ 63 then (2 ^ 63 - 1, True)
                   else if neg \<and> n > 2 ^ 63 then (- (2 ^ 63), True)
                   else (if neg then - int n else int n, False)))"

section \<open>The document tree\<close>

text \<open>
  \<^verbatim>\<open>yaml.Node\<close> of \<^verbatim>\<open>gopkg.in/yaml.v3\<close>, with the fields the program reads. The content of
  a mapping node is the flat list key, value, key, value, ...; the content of a sequence
  node is the list of its elements. \<open>Style\<close> is a set of bit flags, compared by the program
  for equality with one flag; the parser sets the flag of the tag as well on a scalar
  that is written with its tag.
\<close>

datatype Kind = DocumentNode | SequenceNode | MappingNode | ScalarNode | AliasNode

datatype Node = Node (Kind: Kind) (Style: nat) (Value: string) (Content: "Node list")

definition TaggedStyle :: nat where "TaggedStyle = 1"

definition DoubleQuotedStyle :: nat where "DoubleQuotedStyle = 2"

definition LiteralStyle :: nat where "LiteralStyle = 8"

definition FoldedStyle :: nat where "FoldedStyle = 16"

section \<open>Errors and panics\<close>

text \<open>
  The three errors \<^verbatim>\<open>findNodeByPath\<close> builds with \<^verbatim>\<open>fmt.Errorf\<close>, and the run-time panics
  of an index or a slice bound out of range.
\<close>

datatype error =
    KeyNotFound string
  | IndexOutOfRange int string
  | InvalidFormat string

fun Error :: "error \<Rightarrow> string" where
  "Error (KeyNotFound name) = ''key '' @ name @ '' not found''"
| "Error (IndexOutOfRange index name) =
     ''index ['' @ Sprintf_d index @ ''] out of range for '' @ name"
| "Error (InvalidFormat entrypoint) = ''invalid format: '' @ entrypoint"

datatype panic = IndexPanic | SliceBoundsPanic

datatype failure = Returned error | Panicked panic

section \<open>Resolving the entry path\<close>

text \<open>
  The loop of \<^verbatim>\<open>getMapValue\<close> over the content of a mapping node, two entries at a time.
  Reading \<^verbatim>\<open>Content[i+1]\<close> behind a last, unpaired key panics.
\<close>

fun getMapValue_loop :: "Node list \<Rightarrow> string \<Rightarrow> panic + Node option" where
  "getMapValue_loop [] key = Inr None"
| "getMapValue_loop [k] key = (if Value k = key then Inl IndexPanic else Inr None)"
| "getMapValue_loop (k # v # rest) key =
     (if Value k = key then Inr (Some v) else getMapValue_loop rest key)"

definition getMapValue :: "Node \<Rightarrow> string \<Rightarrow> panic + Node option" where
  "getMapValue node key =
     (if Kind node \<noteq> MappingNode then Inr None else getMapValue_loop (Content node) key)"

text \<open>
  The body of the loop of \<^verbatim>\<open>findNodeByPath\<close> for one segment \<open>part\<close>: the node to go on with,
  or the error returned, or the panic. \<open>entrypoint\<close> is the whole expression, which the
  error of a plain segment carries. The two slice expressions are evaluated before the
  lookup, and the index read by \<^verbatim>\<open>Atoi\<close> is only compared with the length from above.
\<close>

definition findNodeByPath_body :: "string \<Rightarrow> Node \<Rightarrow> string \<Rightarrow> failure + Node" where
  "findNodeByPath_body entrypoint current part =
     (if Contains part ''[''
      then (case slice part 0 (Index part ''['') of
              None \<Rightarrow> Inl (Panicked SliceBoundsPanic)
            | Some name \<Rightarrow>
               (case slice part (Index part ''['' + 1) (Index part '']'') of
                  None \<Rightarrow> Inl (Panicked SliceBoundsPanic)
                | Some indexString \<Rightarrow>
                   (let index = fst (Atoi indexString) in
                    case getMapValue current name of
                      Inl p \<Rightarrow> Inl (Panicked p)
                    | Inr None \<Rightarrow> Inl (Returned (KeyNotFound name))
                    | Inr (Some child) \<Rightarrow>
                       if Kind child \<noteq> SequenceNode \<or> index \<ge> int (length (Content child))
                       then Inl (Returned (IndexOutOfRange index name))
                       else if index < 0 then Inl (Panicked IndexPanic)
                       else Inr (Content child ! nat index))))
      else (case getMapValue current part of
              Inl p \<Rightarrow> Inl (Panicked p)
            | Inr None \<Rightarrow> Inl (Returned (InvalidFormat entrypoint))
            | Inr (Some next) \<Rightarrow> Inr next))"

fun findNodeByPath_loop :: "string \<Rightarrow> Node \<Rightarrow> string list \<Rightarrow> failure + Node" where
  "findNodeByPath_loop entrypoint current [] = Inr current"
| "findNodeByPath_loop entrypoint current (part # parts) =
     (case findNodeByPath_body entrypoint current part of
        Inl f \<Rightarrow> Inl f
      | Inr next \<Rightarrow> findNodeByPath_loop entrypoint next parts)"

definition findNodeByPath :: "Node \<Rightarrow> string \<Rightarrow> failure + Node" where
  "findNodeByPath node entrypoint = findNodeByPath_loop entrypoint node (Split entrypoint ''.'')"

section \<open>Flattening\<close>

definition isEmptyNode :: "Node \<Rightarrow> bool" where
  "isEmptyNode node =
     (case Kind node of
        ScalarNode \<Rightarrow> TrimSpace (Value node) = []
      | MappingNode \<Rightarrow> length (Content node) = 0
      | SequenceNode \<Rightarrow> length (Content node) = 0
      | _ \<Rightarrow> False)"

text \<open>
  The output is the list of the writes to \<^verbatim>\<open>out\<close>: each \<^verbatim>\<open>fmt.Fprintf\<close> is one write, which
  ends with a newline. The default branch of the switch of \<^verbatim>\<open>walk\<close>, for a node that is
  neither a mapping nor a sequence:
\<close>

definition walk_default :: "string \<Rightarrow> Node \<Rightarrow> string list \<Rightarrow> string list" where
  "walk_default kvSeparator node path =
     (let val = Value node in
      if Kind node = ScalarNode
         \<and> (Contains val [CHR 0x0A] \<or> Style node = LiteralStyle \<or> Style node = FoldedStyle)
      then (Join path ''.'' @ kvSeparator @ ''|-'' @ [CHR 0x0A])
           # map (\<lambda>line. ''  '' @ line @ [CHR 0x0A])
               (let lines = Split val [CHR 0x0A]
                in if last lines = [] then butlast lines else lines)
      else if ContainsAny val '':[]{},'' \<or> HasPrefix val '' '' \<or> HasSuffix val '' ''
      then [Join path ''.'' @ kvSeparator @ [CHR 0x22]
              @ ReplaceAll val (CHR 0x22) [CHR 0x5C, CHR 0x22] @ [CHR 0x22] @ [CHR 0x0A]]
      else [Join path ''.'' @ kvSeparator @ val @ [CHR 0x0A]])"

text \<open>
  The step of both loops of \<^verbatim>\<open>walk\<close>: what the rest of the loop writes follows what the
  first call wrote, unless that call panicked, which ends the walk.
\<close>

definition next_after :: "string list \<times> panic option \<Rightarrow> string list \<times> panic option \<Rightarrow> string list \<times> panic option" where
  "next_after first rest =
     (case snd first of Some p \<Rightarrow> first | None \<Rightarrow> (fst first @ fst rest, snd rest))"

text \<open>
  \<^verbatim>\<open>walk\<close> with its two loops. The flags \<^verbatim>\<open>includeEmpty\<close> and \<^verbatim>\<open>kvSeparator\<close>, package
  variables of the program, are the first two arguments. The result is what was written
  and, if the walk panicked, the panic that ended it. A path is passed by value: the
  \<^verbatim>\<open>append\<close> of the mapping loop may share the array of \<open>path\<close>, but only writes behind its
  end, and the sequence loop works on a copy.
\<close>

function (sequential) walk :: "bool \<Rightarrow> string \<Rightarrow> Node \<Rightarrow> string list \<Rightarrow> int \<Rightarrow> string list \<times> panic option"
  and walk_mapping :: "bool \<Rightarrow> string \<Rightarrow> Node list \<Rightarrow> string list \<Rightarrow> int \<Rightarrow> string list \<times> panic option"
  and walk_sequence :: "bool \<Rightarrow> string \<Rightarrow> Node list \<Rightarrow> string list \<Rightarrow> int \<Rightarrow> int \<Rightarrow> string list \<times> panic option"
  where
  "walk includeEmpty kvSeparator (Node kind style val content) path remain =
     (if \<not> includeEmpty \<and> isEmptyNode (Node kind style val content) then ([], None)
      else (case kind of
              MappingNode \<Rightarrow>
                if remain = 0
                then ([Join path ''.'' @ kvSeparator @ ''<object>'' @ [CHR 0x0A]], None)
                else walk_mapping includeEmpty kvSeparator content path
                       (if remain > 0 then remain - 1 else remain)
            | SequenceNode \<Rightarrow>
                if remain = 0
                then ([Join path ''.'' @ kvSeparator @ ''<array>'' @ [CHR 0x0A]], None)
                else walk_sequence includeEmpty kvSeparator content path
                       (if remain > 0 then remain - 1 else remain) 0
            | _ \<Rightarrow> (walk_default kvSeparator (Node kind style val content) path, None)))"
| "walk_mapping includeEmpty kvSeparator [] path nextRem = ([], None)"
| "walk_mapping includeEmpty kvSeparator [keyNode] path nextRem = ([], Some IndexPanic)"
| "walk_mapping includeEmpty kvSeparator (keyNode # valueNode # rest) path nextRem =
     next_after (walk includeEmpty kvSeparator valueNode (path @ [Value keyNode]) nextRem)
       (walk_mapping includeEmpty kvSeparator rest path nextRem)"
| "walk_sequence includeEmpty kvSeparator [] path nextRem i = ([], None)"
| "walk_sequence includeEmpty kvSeparator (item # rest) path nextRem i =
     (if path = [] then ([], Some IndexPanic)
      else next_after (walk includeEmpty kvSeparator item
                   (path[length path - 1 :=
                           path ! (length path - 1) @ ''['' @ Sprintf_d i @ '']''])
                   nextRem)
                (walk_sequence includeEmpty kvSeparator rest path nextRem (i + 1)))"
  by pat_completeness auto
termination
  by (relation "measure (\<lambda>x. case x of
          Inl (_, _, node, _, _) \<Rightarrow> size node
        | Inr (Inl (_, _, nodes, _, _)) \<Rightarrow> size_list size nodes
        | Inr (Inr (_, _, nodes, _, _, _)) \<Rightarrow> size_list size nodes)") auto

section \<open>The program\<close>

text \<open>
  \<^verbatim>\<open>main\<close> from the check of the separator on, for a run with a file that was read and
  parsed into the document node \<open>yamlRoot\<close>. The flags are arguments. The outcome is the
  usage text, an error printed with \<^verbatim>\<open>fmt.Println\<close> (nothing is written to \<^verbatim>\<open>out\<close> then), or
  what \<^verbatim>\<open>walk\<close> wrote to \<^verbatim>\<open>out\<close> and the panic that ended the run, if one did.
\<close>

datatype outcome = PrintedUsage | PrintedError string | Wrote "string list" "panic option"

definition main :: "string \<Rightarrow> int \<Rightarrow> bool \<Rightarrow> string \<Rightarrow> Node \<Rightarrow> outcome" where
  "main entry depth includeEmpty kvSeparator yamlRoot =
     (if kvSeparator \<noteq> '': '' \<and> kvSeparator \<noteq> ''=''
      then PrintedUsage
      else (let entryPath = (if entry \<noteq> [] then Split entry ''.'' else [])
            in (case Content yamlRoot of
                  [] \<Rightarrow> Wrote [] (Some IndexPanic)
                | rootNode # _ \<Rightarrow>
                    if entry = []
                    then (case walk includeEmpty kvSeparator rootNode entryPath depth of
                            (out, p) \<Rightarrow> Wrote out p)
                    else (case findNodeByPath rootNode entry of
                            Inl (Returned err) \<Rightarrow> PrintedError (Error err)
                          | Inl (Panicked p) \<Rightarrow> Wrote [] (Some p)
                          | Inr node \<Rightarrow>
                              (case walk includeEmpty kvSeparator node entryPath depth of
                                 (out, p) \<Rightarrow> Wrote out p)))))"

section \<open>Documents of the examples\<close>

text \<open>
  Nodes as the parser builds them for block-style YAML: a plain scalar, a scalar in
  double quotes, a mapping from its pairs in the order of the document (each key is a
  plain scalar node), a sequence, and the document node around the root.
\<close>

definition yaml_scalar :: "string \<Rightarrow> Node" where
  "yaml_scalar v = Node ScalarNode 0 v []"

definition yaml_quoted :: "string \<Rightarrow> Node" where
  "yaml_quoted v = Node ScalarNode DoubleQuotedStyle v []"

definition yaml_mapping :: "(string \<times> Node) list \<Rightarrow> Node" where
  "yaml_mapping pairs = Node MappingNode 0 [] (concat (map (\<lambda>(k, v). [yaml_scalar k, v]) pairs))"

definition yaml_sequence :: "Node list \<Rightarrow> Node" where
  "yaml_sequence items = Node SequenceNode 0 [] items"

definition yaml_document :: "Node \<Rightarrow> Node" where
  "yaml_document root = Node DocumentNode 0 [] [root]"

definition alertmanager_values :: Node where
  "alertmanager_values =
     yaml_mapping
       [(''alertmanager'',
         yaml_mapping
           [(''enabled'', yaml_scalar ''false''),
            (''namespaceOverride'', yaml_quoted []),
            (''annotations'', yaml_mapping [(''snooze'', yaml_scalar ''true'')]),
            (''apiVersion'', yaml_quoted ''v2'')])]"

definition containers_values :: Node where
  "containers_values =
     yaml_mapping
       [(''containers'',
         yaml_sequence
           [yaml_mapping [(''name'', yaml_scalar ''a'')],
            yaml_mapping [(''name'', yaml_scalar ''b'')],
            yaml_mapping [(''name'', yaml_scalar ''c'')]])]"

text \<open>The keys of the content of a mapping node: the entries at the even positions.\<close>

fun mapping_keys :: "Node list \<Rightarrow> string list" where
  "mapping_keys [] = []"
| "mapping_keys [k] = [Value k]"
| "mapping_keys (k # v # rest) = Value k # mapping_keys rest"

section \<open>Notions of the properties\<close>

text \<open>
  The following definitions are not part of the program: they say what the properties
  below are about. Resolution reaches a node \<open>current\<close> with the segment \<open>part\<close> next when
  the segments before \<open>part\<close> resolve to \<open>current\<close>. A node lacks a name when it is not a
  mapping or the name is none of its keys. An indexed segment is one with an opening
  bracket from which the program can cut a name and the text of an index; its index is
  what \<^verbatim>\<open>Atoi\<close> makes of that text.
\<close>

definition reaches :: "Node \<Rightarrow> string \<Rightarrow> string list \<Rightarrow> Node \<Rightarrow> string \<Rightarrow> string list \<Rightarrow> bool" where
  "reaches root entry before current part after =
     (Split entry ''.'' = before @ part # after
      \<and> findNodeByPath_loop entry root before = Inr current)"

definition lacks :: "Node \<Rightarrow> string \<Rightarrow> bool" where
  "lacks current name =
     (Kind current \<noteq> MappingNode \<or> name \<notin> set (mapping_keys (Content current)))"

definition indexed :: "string \<Rightarrow> (string \<times> int) option" where
  "indexed part =
     (if Contains part ''[''
      then (case slice part 0 (Index part ''['') of
              None \<Rightarrow> None
            | Some name \<Rightarrow>
               (case slice part (Index part ''['' + 1) (Index part '']'') of
                  None \<Rightarrow> None
                | Some indexString \<Rightarrow> Some (name, fst (Atoi indexString))))
      else None)"

text \<open>
  A node is barren when it is empty for \<^verbatim>\<open>isEmptyNode\<close>, or is a mapping or a sequence all
  of whose values or elements are barren: every descendant of it is empty or has only
  such descendants.
\<close>

fun barren :: "Node \<Rightarrow> bool"
  and barren_values :: "Node list \<Rightarrow> bool"
  and barren_items :: "Node list \<Rightarrow> bool" where
  "barren (Node kind style val content) =
     (isEmptyNode (Node kind style val content)
      \<or> (kind = MappingNode \<and> barren_values content)
      \<or> (kind = SequenceNode \<and> barren_items content))"
| "barren_values [] = True"
| "barren_values [keyNode] = True"
| "barren_values (keyNode # valueNode # rest) = (barren valueNode \<and> barren_values rest)"
| "barren_items [] = True"
| "barren_items (item # rest) = (barren item \<and> barren_items rest)"

text \<open>
  The levels of a node: how many mappings and sequences that are not empty are nested
  in it, itself included; an empty node has none.
\<close>

fun levels :: "Node \<Rightarrow> nat"
  and levels_values :: "Node list \<Rightarrow> nat"
  and levels_items :: "Node list \<Rightarrow> nat" where
  "levels (Node kind style val content) =
     (if isEmptyNode (Node kind style val content) then 0
      else (case kind of
              MappingNode \<Rightarrow> 1 + levels_values content
            | SequenceNode \<Rightarrow> 1 + levels_items content
            | _ \<Rightarrow> 0))"
| "levels_values [] = 0"
| "levels_values [keyNode] = 0"
| "levels_values (keyNode # valueNode # rest) = max (levels valueNode) (levels_values rest)"
| "levels_items [] = 0"
| "levels_items (item # rest) = max (levels item) (levels_items rest)"

text \<open>
  The height of a node: the number of nested mappings and sequences down to its deepest
  descendant; a scalar has height 0 and an empty mapping height 1.
\<close>

fun height :: "Node \<Rightarrow> nat"
  and height_values :: "Node list \<Rightarrow> nat"
  and height_items :: "Node list \<Rightarrow> nat" where
  "height (Node kind style val content) =
     (case kind of
        MappingNode \<Rightarrow> 1 + height_values content
      | SequenceNode \<Rightarrow> 1 + height_items content
      | _ \<Rightarrow> 0)"
| "height_values [] = 0"
| "height_values [keyNode] = 0"
| "height_values (keyNode # valueNode # rest) = max (height valueNode) (height_values rest)"
| "height_items [] = 0"
| "height_items (item # rest) = max (height item) (height_items rest)"

text \<open>
  The pairs of a mapping node, the elements of a sequence with their indices from \<open>i\<close> on,
  and the path of the element \<open>i\<close> of a sequence at \<open>path\<close>: the index is attached to the last
  segment.
\<close>

fun mapping_pairs :: "Node list \<Rightarrow> (string \<times> Node) list" where
  "mapping_pairs [] = []"
| "mapping_pairs [keyNode] = []"
| "mapping_pairs (keyNode # valueNode # rest) = (Value keyNode, valueNode) # mapping_pairs rest"

fun numbered :: "int \<Rightarrow> Node list \<Rightarrow> (int \<times> Node) list" where
  "numbered i [] = []"
| "numbered i (item # rest) = (i, item) # numbered (i + 1) rest"

definition with_index :: "string list \<Rightarrow> int \<Rightarrow> string list" where
  "with_index path i =
     path[length path - 1 := path ! (length path - 1) @ ''['' @ Sprintf_d i @ '']'']"

text \<open>
  The descendants of a node in the order of the document, the node itself first: each
  with the number of descents from the start node down to it and with its path, which is
  the path of its parent with its key appended as a new segment, or with its index
  attached. A descent is a step from a mapping to one of its values or from a sequence to
  one of its elements, so a descendant \<open>k\<close> descents down has \<open>k\<close> segments, keys or indices,
  more than the start.
\<close>

function (sequential) descendants :: "nat \<Rightarrow> string list \<Rightarrow> Node \<Rightarrow> (nat \<times> string list \<times> Node) list"
  and descendants_values :: "nat \<Rightarrow> string list \<Rightarrow> Node list \<Rightarrow> (nat \<times> string list \<times> Node) list"
  and descendants_items :: "nat \<Rightarrow> string list \<Rightarrow> Node list \<Rightarrow> int \<Rightarrow> (nat \<times> string list \<times> Node) list"
  where
  "descendants k path (Node kind style val content) =
     (k, path, Node kind style val content)
     # (case kind of
          MappingNode \<Rightarrow> descendants_values (Suc k) path content
        | SequenceNode \<Rightarrow> descendants_items (Suc k) path content 0
        | _ \<Rightarrow> [])"
| "descendants_values k path [] = []"
| "descendants_values k path [keyNode] = []"
| "descendants_values k path (keyNode # valueNode # rest) =
     descendants k (path @ [Value keyNode]) valueNode @ descendants_values k path rest"
| "descendants_items k path [] i = []"
| "descendants_items k path (item # rest) i =
     descendants k (with_index path i) item @ descendants_items k path rest (i + 1)"
  by pat_completeness auto
termination
  by (relation "measure (\<lambda>x. case x of
          Inl (_, _, node) \<Rightarrow> size node
        | Inr (Inl (_, _, nodes)) \<Rightarrow> size_list size nodes
        | Inr (Inr (_, _, nodes, _)) \<Rightarrow> size_list size nodes)") auto

text \<open>
  With the budget \<open>limit\<close> (negative: no limit), a descendant is walked when it lies at most
  \<open>limit\<close> descents down and is not left out as empty. The lines of a descendant are the
  lines of the default branch for a leaf; a mapping or a sequence has the line of its
  placeholder when it lies exactly \<open>limit\<close> descents down, and no line of its own otherwise.
  The lines of a list of descendants are the lines of those that are walked, in order.
\<close>

definition walked :: "bool \<Rightarrow> int \<Rightarrow> nat \<times> string list \<times> Node \<Rightarrow> bool" where
  "walked includeEmpty limit d =
     (case d of (k, path, node) \<Rightarrow>
        (includeEmpty \<or> \<not> isEmptyNode node) \<and> (limit < 0 \<or> int k \<le> limit))"

definition node_lines :: "string \<Rightarrow> int \<Rightarrow> nat \<times> string list \<times> Node \<Rightarrow> string list" where
  "node_lines kvSeparator limit d =
     (case d of (k, path, node) \<Rightarrow>
        (case Kind node of
           MappingNode \<Rightarrow>
             if int k = limit then [Join path ''.'' @ kvSeparator @ ''<object>'' @ [CHR 0x0A]]
             else []
         | SequenceNode \<Rightarrow>
             if int k = limit then [Join path ''.'' @ kvSeparator @ ''<array>'' @ [CHR 0x0A]]
             else []
         | _ \<Rightarrow> walk_default kvSeparator node path))"

definition lines_of :: "bool \<Rightarrow> string \<Rightarrow> int \<Rightarrow> (nat \<times> string list \<times> Node) list \<Rightarrow> string list" where
  "lines_of includeEmpty kvSeparator limit ds =
     concat (map (node_lines kvSeparator limit) (filter (walked includeEmpty limit) ds))"

text \<open>The limit, counted from the start node, of a walk that is \<open>k\<close> descents down with the budget \<open>remain\<close>.\<close>

definition limit_of :: "int \<Rightarrow> nat \<Rightarrow> int" where
  "limit_of remain k = (if remain < 0 then remain else remain + int k)"

section \<open>Evaluation\<close>

text \<open>
  The equations of the functions defined by well-founded recursion rewrite any call, also
  the one on their own right-hand side. To evaluate a call they are used in the form of
  one conditional equation for each branch.
\<close>

declare Split.simps [simp del] TrimLeft.simps [simp del] TrimRight.simps [simp del]
  decimal.simps [simp del]

lemma Split_none: "sep \<noteq> [] \<Longrightarrow> Index s sep < 0 \<Longrightarrow> Split s sep = [s]"
  by (simp add: Split.simps)

lemma Split_some:
  "sep \<noteq> [] \<Longrightarrow> \<not> Index s sep < 0 \<Longrightarrow>
   Split s sep = take (nat (Index s sep)) s # Split (drop (nat (Index s sep) + length sep) s) sep"
  by (subst Split.simps) simp

lemma TrimLeft_done: "leading_space s = 0 \<Longrightarrow> TrimLeft s = s"
  by (simp add: TrimLeft.simps)

lemma TrimLeft_step: "leading_space s \<noteq> 0 \<Longrightarrow> TrimLeft s = TrimLeft (drop (leading_space s) s)"
  by (subst TrimLeft.simps) simp

lemma TrimRight_done: "trailing_space s = 0 \<Longrightarrow> TrimRight s = s"
  by (simp add: TrimRight.simps)

lemma TrimRight_step:
  "trailing_space s \<noteq> 0 \<Longrightarrow> TrimRight s = TrimRight (take (length s - trailing_space s) s)"
  by (subst TrimRight.simps) simp

lemma decimal_digit: "n < 10 \<Longrightarrow> decimal n = [''0123456789'' ! n]"
  by (simp add: decimal.simps)

lemma decimal_step:
  "\<not> n < 10 \<Longrightarrow> decimal n = decimal (n div 10) @ [''0123456789'' ! (n mod 10)]"
  by (subst decimal.simps) simp

lemmas eval_defs =
  Split_none Split_some TrimLeft_done TrimLeft_step TrimRight_done TrimRight_step
  decimal_digit decimal_step
  main_def findNodeByPath_def findNodeByPath_body_def getMapValue_def Contains_def slice_def
  Atoi_def is_digit_def digit_val_def isEmptyNode_def TrimSpace_def leading_space_def
  trailing_space_def space_encodings_def walk_default_def ContainsAny_def HasPrefix_def
  HasSuffix_def next_after_def Sprintf_d_def LiteralStyle_def FoldedStyle_def Let_def
  suffix_to_prefix DoubleQuotedStyle_def yaml_scalar_def yaml_quoted_def yaml_mapping_def yaml_sequence_def yaml_document_def
  alertmanager_values_def containers_values_def

section \<open>The cases of walk\<close>

text \<open>What \<^verbatim>\<open>walk\<close> does for a node that is skipped, for a leaf, a mapping and a sequence.\<close>

lemma walk_skip_empty:
  "\<not> includeEmpty \<Longrightarrow> isEmptyNode node \<Longrightarrow> walk includeEmpty kvSeparator node path remain = ([], None)"
  by (cases node) simp

lemma walk_leaf:
  assumes "Kind node \<noteq> MappingNode" and "Kind node \<noteq> SequenceNode"
    and "includeEmpty \<or> \<not> isEmptyNode node"
  shows "walk includeEmpty kvSeparator node path remain = (walk_default kvSeparator node path, None)"
proof (cases node)
  case (Node k st v c)
  with assms show ?thesis by (cases k; cases includeEmpty; simp)
qed

lemma walk_Mapping:
  "includeEmpty \<or> \<not> isEmptyNode (Node MappingNode style val content) \<Longrightarrow>
   walk includeEmpty kvSeparator (Node MappingNode style val content) path remain
   = (if remain = 0 then ([Join path ''.'' @ kvSeparator @ ''<object>'' @ [CHR 0x0A]], None)
      else walk_mapping includeEmpty kvSeparator content path
             (if remain > 0 then remain - 1 else remain))"
  by (cases includeEmpty) simp_all

lemma walk_Sequence:
  "includeEmpty \<or> \<not> isEmptyNode (Node SequenceNode style val content) \<Longrightarrow>
   walk includeEmpty kvSeparator (Node SequenceNode style val content) path remain
   = (if remain = 0 then ([Join path ''.'' @ kvSeparator @ ''<array>'' @ [CHR 0x0A]], None)
      else walk_sequence includeEmpty kvSeparator content path
             (if remain > 0 then remain - 1 else remain) 0)"
  by (cases includeEmpty) simp_all

lemma walk_default_not_Nil: "walk_default kvSeparator node path \<noteq> []"
  by (simp add: walk_default_def Let_def)

lemma next_after_fst_Nil:
  "fst a = [] \<Longrightarrow> fst b = [] \<Longrightarrow> fst (next_after a b) = []"
  by (simp add: next_after_def split: option.splits)

lemma next_after_panicked: "snd a \<noteq> None \<Longrightarrow> next_after a b = a"
  by (auto simp: next_after_def split: option.splits)

lemma next_after_returned: "snd a = None \<Longrightarrow> next_after a b = (fst a @ fst b, snd b)"
  by (simp add: next_after_def)

lemma next_after_None: "snd (next_after a b) = None \<longleftrightarrow> snd a = None \<and> snd b = None"
  by (auto simp: next_after_def split: option.splits)

lemma next_after_lines:
  assumes "prefix (fst a) A \<and> (snd a = None \<longrightarrow> fst a = A)"
    and "prefix (fst b) B \<and> (snd b = None \<longrightarrow> fst b = B)"
  shows "prefix (fst (next_after a b)) (A @ B)
         \<and> (snd (next_after a b) = None \<longrightarrow> fst (next_after a b) = A @ B)"
proof (cases "snd a = None")
  case True
  with assms show ?thesis by (simp add: next_after_returned)
next
  case False
  then have "next_after a b = a" by (rule next_after_panicked)
  with False assms(1) show ?thesis by (auto simp: prefix_prefix)
qed

section \<open>The lines of a tree\<close>

lemma lines_of_append:
  "lines_of includeEmpty kvSeparator limit (xs @ ys)
   = lines_of includeEmpty kvSeparator limit xs @ lines_of includeEmpty kvSeparator limit ys"
  by (simp add: lines_of_def)

lemma lines_of_Nil: "lines_of includeEmpty kvSeparator limit [] = []"
  by (simp add: lines_of_def)

lemma descendants_depth:
  "d \<in> set (descendants k path node) \<Longrightarrow> k \<le> fst d"
  "d \<in> set (descendants_values k path content) \<Longrightarrow> k \<le> fst d"
  "d \<in> set (descendants_items k path content i) \<Longrightarrow> k \<le> fst d"
proof (induction k path node and k path content and k path content i
    rule: descendants_descendants_values_descendants_items.induct)
  case (1 k path kind style val content)
  then show ?case by (cases kind) (auto dest: Suc_leD)
qed auto

lemma lines_of_below:
  assumes "\<And>d. d \<in> set ds \<Longrightarrow> Suc k \<le> fst d"
  shows "lines_of includeEmpty kvSeparator (int k) ds = []"
proof -
  have "filter (walked includeEmpty (int k)) ds = []"
    using assms by (fastforce simp: filter_empty_conv walked_def)
  then show ?thesis by (simp add: lines_of_def)
qed

lemma lines_of_member:
  assumes "w \<in> set (lines_of includeEmpty kvSeparator limit ds)" and "0 \<le> limit"
  shows "\<exists>x \<in> set ds. int (fst x) \<le> limit \<and> w \<in> set (node_lines kvSeparator limit x)"
proof -
  from assms(1) obtain x where x: "x \<in> set ds" "walked includeEmpty limit x"
    "w \<in> set (node_lines kvSeparator limit x)"
    by (auto simp: lines_of_def)
  from x(2) assms(2) have "int (fst x) \<le> limit"
    by (cases x) (simp add: walked_def)
  with x show ?thesis by blast
qed

text \<open>
  What \<^verbatim>\<open>walk\<close> writes is the lines of the descendants that are walked, up to the write
  before a panic; it is all of them when the walk does not panic.
\<close>

lemma walk_lines_general:
  "prefix (fst (walk includeEmpty kvSeparator node path remain))
       (lines_of includeEmpty kvSeparator (limit_of remain k) (descendants k path node))
   \<and> (snd (walk includeEmpty kvSeparator node path remain) = None \<longrightarrow>
        fst (walk includeEmpty kvSeparator node path remain)
        = lines_of includeEmpty kvSeparator (limit_of remain k) (descendants k path node))"
  "prefix (fst (walk_mapping includeEmpty kvSeparator content path nextRem))
       (lines_of includeEmpty kvSeparator (limit_of nextRem k) (descendants_values k path content))
   \<and> (snd (walk_mapping includeEmpty kvSeparator content path nextRem) = None \<longrightarrow>
        fst (walk_mapping includeEmpty kvSeparator content path nextRem)
        = lines_of includeEmpty kvSeparator (limit_of nextRem k) (descendants_values k path content))"
  "prefix (fst (walk_sequence includeEmpty kvSeparator content path nextRem i))
       (lines_of includeEmpty kvSeparator (limit_of nextRem k) (descendants_items k path content i))
   \<and> (snd (walk_sequence includeEmpty kvSeparator content path nextRem i) = None \<longrightarrow>
        fst (walk_sequence includeEmpty kvSeparator content path nextRem i)
        = lines_of includeEmpty kvSeparator (limit_of nextRem k) (descendants_items k path content i))"
proof (induction includeEmpty kvSeparator node path remain
    and includeEmpty kvSeparator content path nextRem
    and includeEmpty kvSeparator content path nextRem i
    arbitrary: k and k and k
    rule: walk_walk_mapping_walk_sequence.induct)
  case (1 includeEmpty kvSeparator kind style val content path remain)
  let ?node = "Node kind style val content"
  let ?L = "limit_of remain k"
  show ?case
  proof (cases "\<not> includeEmpty \<and> isEmptyNode ?node")
    case True
    then have "\<not> walked includeEmpty ?L (k, path, ?node)" by (simp add: walked_def)
    moreover from True have "(case kind of
          MappingNode \<Rightarrow> descendants_values (Suc k) path content
        | SequenceNode \<Rightarrow> descendants_items (Suc k) path content 0
        | _ \<Rightarrow> []) = []"
      by (cases kind) (simp_all add: isEmptyNode_def)
    ultimately have "lines_of includeEmpty kvSeparator ?L (descendants k path ?node) = []"
      by (simp add: lines_of_def)
    with True show ?thesis by simp
  next
    case False
    note go = this
    then have go': "includeEmpty \<or> \<not> isEmptyNode ?node" by blast
    have inside: "limit_of remain k < 0 \<or> int k \<le> limit_of remain k"
      by (simp add: limit_of_def)
    with go' have w: "walked includeEmpty ?L (k, path, ?node)" by (simp add: walked_def)
    show ?thesis
    proof (cases kind)
      case MappingNode
      show ?thesis
      proof (cases "remain = 0")
        case True
        then have L: "?L = int k" by (simp add: limit_of_def)
        have "lines_of includeEmpty kvSeparator (int k) (descendants_values (Suc k) path content) = []"
          by (rule lines_of_below) (rule descendants_depth(2))
        with w L MappingNode
        have "lines_of includeEmpty kvSeparator ?L (descendants k path ?node)
            = [Join path ''.'' @ kvSeparator @ ''<object>'' @ [CHR 0x0A]]"
          by (simp add: lines_of_def node_lines_def)
        with go' MappingNode True show ?thesis by (simp add: walk_Mapping del: walk.simps)
      next
        case r: False
        let ?nr = "if remain > 0 then remain - 1 else remain"
        from r have L: "limit_of ?nr (Suc k) = ?L" and no: "int k \<noteq> ?L"
          by (auto simp: limit_of_def)
        from w no MappingNode
        have "lines_of includeEmpty kvSeparator ?L (descendants k path ?node)
            = lines_of includeEmpty kvSeparator ?L (descendants_values (Suc k) path content)"
          by (simp add: lines_of_def node_lines_def)
        moreover have "walk includeEmpty kvSeparator ?node path remain
            = walk_mapping includeEmpty kvSeparator content path ?nr"
          using go' MappingNode r by (simp add: walk_Mapping del: walk.simps)
        ultimately show ?thesis using "1.IH"(2) [OF go MappingNode r, of "Suc k"] L by simp
      qed
    next
      case SequenceNode
      show ?thesis
      proof (cases "remain = 0")
        case True
        then have L: "?L = int k" by (simp add: limit_of_def)
        have "lines_of includeEmpty kvSeparator (int k) (descendants_items (Suc k) path content 0) = []"
          by (rule lines_of_below) (rule descendants_depth(3))
        with w L SequenceNode
        have "lines_of includeEmpty kvSeparator ?L (descendants k path ?node)
            = [Join path ''.'' @ kvSeparator @ ''<array>'' @ [CHR 0x0A]]"
          by (simp add: lines_of_def node_lines_def)
        with go' SequenceNode True show ?thesis by (simp add: walk_Sequence del: walk.simps)
      next
        case r: False
        let ?nr = "if remain > 0 then remain - 1 else remain"
        from r have L: "limit_of ?nr (Suc k) = ?L" and no: "int k \<noteq> ?L"
          by (auto simp: limit_of_def)
        from w no SequenceNode
        have "lines_of includeEmpty kvSeparator ?L (descendants k path ?node)
            = lines_of includeEmpty kvSeparator ?L (descendants_items (Suc k) path content 0)"
          by (simp add: lines_of_def node_lines_def)
        moreover have "walk includeEmpty kvSeparator ?node path remain
            = walk_sequence includeEmpty kvSeparator content path ?nr 0"
          using go' SequenceNode r by (simp add: walk_Sequence del: walk.simps)
        ultimately show ?thesis using "1.IH"(1) [OF go SequenceNode r, of "Suc k"] L by simp
      qed
    next
      case DocumentNode
      with w have "lines_of includeEmpty kvSeparator ?L (descendants k path ?node)
          = walk_default kvSeparator ?node path"
        by (simp add: lines_of_def node_lines_def)
      with go' DocumentNode show ?thesis by (simp add: walk_leaf del: walk.simps)
    next
      case ScalarNode
      with w have "lines_of includeEmpty kvSeparator ?L (descendants k path ?node)
          = walk_default kvSeparator ?node path"
        by (simp add: lines_of_def node_lines_def)
      with go' ScalarNode show ?thesis by (simp add: walk_leaf del: walk.simps)
    next
      case AliasNode
      with w have "lines_of includeEmpty kvSeparator ?L (descendants k path ?node)
          = walk_default kvSeparator ?node path"
        by (simp add: lines_of_def node_lines_def)
      with go' AliasNode show ?thesis by (simp add: walk_leaf del: walk.simps)
    qed
  qed
next
  case (2 includeEmpty kvSeparator path nextRem)
  show ?case by (simp add: lines_of_Nil)
next
  case (3 includeEmpty kvSeparator keyNode path nextRem)
  show ?case by (simp add: lines_of_Nil)
next
  case (4 includeEmpty kvSeparator keyNode valueNode rest path nextRem)
  show ?case
    using next_after_lines [OF "4.IH"(1) [of k] "4.IH"(2) [of k]]
    by (simp add: lines_of_append)
next
  case (5 includeEmpty kvSeparator path nextRem i)
  show ?case by (simp add: lines_of_Nil)
next
  case (6 includeEmpty kvSeparator item rest path nextRem i)
  show ?case
  proof (cases "path = []")
    case True
    then show ?thesis by simp
  next
    case False
    then show ?thesis
      using next_after_lines [OF "6.IH"(1) [OF False, of k] "6.IH"(2) [OF False, of k]]
      by (simp add: lines_of_append with_index_def)
  qed
qed

lemma walk_lines:
  "prefix (fst (walk includeEmpty kvSeparator node path remain))
       (lines_of includeEmpty kvSeparator remain (descendants 0 path node))"
  "snd (walk includeEmpty kvSeparator node path remain) = None \<Longrightarrow>
   fst (walk includeEmpty kvSeparator node path remain)
   = lines_of includeEmpty kvSeparator remain (descendants 0 path node)"
proof -
  have "limit_of remain 0 = remain" by (simp add: limit_of_def)
  with walk_lines_general(1) [of includeEmpty kvSeparator node path remain 0]
  have both: "prefix (fst (walk includeEmpty kvSeparator node path remain))
        (lines_of includeEmpty kvSeparator remain (descendants 0 path node))
      \<and> (snd (walk includeEmpty kvSeparator node path remain) = None \<longrightarrow>
          fst (walk includeEmpty kvSeparator node path remain)
          = lines_of includeEmpty kvSeparator remain (descendants 0 path node))"
    by (simp del: walk.simps descendants.simps)
  from both show "prefix (fst (walk includeEmpty kvSeparator node path remain))
       (lines_of includeEmpty kvSeparator remain (descendants 0 path node))" by blast
  from both show "snd (walk includeEmpty kvSeparator node path remain) = None \<Longrightarrow>
   fst (walk includeEmpty kvSeparator node path remain)
   = lines_of includeEmpty kvSeparator remain (descendants 0 path node)" by blast
qed

text \<open>
  A walk that does not panic writes, for a mapping or a sequence with budget left, what
  the walks of the children write, each child walked with the budget less one, or with
  the negative budget as it is.
\<close>

lemma walk_mapping_children:
  "snd (walk_mapping includeEmpty kvSeparator content path nextRem) = None \<Longrightarrow>
   fst (walk_mapping includeEmpty kvSeparator content path nextRem)
   = concat (map (\<lambda>(key, valueNode).
                    fst (walk includeEmpty kvSeparator valueNode (path @ [key]) nextRem))
               (mapping_pairs content))"
proof (induction content rule: mapping_pairs.induct)
  case 1
  show ?case by simp
next
  case (2 keyNode)
  then show ?case by simp
next
  case (3 keyNode valueNode rest)
  from "3.prems" have a: "snd (walk includeEmpty kvSeparator valueNode (path @ [Value keyNode]) nextRem) = None"
    and b: "snd (walk_mapping includeEmpty kvSeparator rest path nextRem) = None"
    by (simp_all add: next_after_None)
  from "3.IH" [OF b] a show ?case by (simp add: next_after_returned)
qed

lemma walk_sequence_children:
  "snd (walk_sequence includeEmpty kvSeparator content path nextRem i) = None \<Longrightarrow>
   fst (walk_sequence includeEmpty kvSeparator content path nextRem i)
   = concat (map (\<lambda>(j, item).
                    fst (walk includeEmpty kvSeparator item (with_index path j) nextRem))
               (numbered i content))"
proof (induction content arbitrary: i)
  case Nil
  show ?case by simp
next
  case (Cons item rest)
  from Cons.prems have ne: "path \<noteq> []" by (auto split: if_splits)
  with Cons.prems have a: "snd (walk includeEmpty kvSeparator item (with_index path i) nextRem) = None"
    and b: "snd (walk_sequence includeEmpty kvSeparator rest path nextRem (i + 1)) = None"
    by (simp_all add: next_after_None with_index_def)
  from Cons.IH [OF b] a ne show ?case by (simp add: next_after_returned with_index_def)
qed

section \<open>Resolving: the index of an indexed segment\<close>

text \<open>
  C1. An indexed segment \<open>name[N]\<close> descends into element \<open>N\<close> only when \<open>0 \<le> N < L\<close> and
  otherwise fails with the error of an index out of range. The program compares the index
  with the length from above only: \<open>containers[5]\<close> on three elements is that error, but
  the negative index of \<open>containers[-1]\<close> passes the comparison and the element access
  panics.
\<close>

theorem findNodeByPath_negative_index:
  "findNodeByPath containers_values ''containers[-1]'' = Inl (Panicked IndexPanic)
   \<and> findNodeByPath containers_values ''containers[5].name''
       = Inl (Returned (IndexOutOfRange 5 ''containers''))
   \<and> findNodeByPath containers_values ''containers[1].name'' = Inr (yaml_scalar ''b'')"
  by (simp add: eval_defs)

section \<open>A mapping at budget 0\<close>

text \<open>
  C2, as stated: at budget 0 every mapping node writes the one line of \<open><object>\<close>,
  whatever it contains and whatever \<open>includeEmpty\<close> is. The test for emptiness comes first
  in \<^verbatim>\<open>walk\<close>: an empty mapping writes nothing when empty values are left out.
\<close>

theorem walk_empty_mapping_budget_zero:
  "walk False '': '' (yaml_mapping []) [''a''] 0 = ([], None)
   \<and> walk False '': '' (yaml_mapping []) [''a''] 0
       \<noteq> ([Join [''a''] ''.'' @ '': '' @ ''<object>'' @ [CHR 0x0A]], None)"
  by (simp add: eval_defs)

text \<open>
  C2, amended: at budget 0 a mapping node that is not skipped as empty (it has a child, or
  \<open>includeEmpty\<close> is set) writes exactly the line \<open><joined prefix><separator><object>\<close> and
  nothing else, for every prefix and separator and whatever the mapping contains.
\<close>

theorem walk_mapping_budget_zero:
  assumes "Kind node = MappingNode" and "includeEmpty \<or> Content node \<noteq> []"
  shows "walk includeEmpty kvSeparator node path 0
         = ([Join path ''.'' @ kvSeparator @ ''<object>'' @ [CHR 0x0A]], None)"
  using assms by (cases node) (auto simp: isEmptyNode_def)

theorem walk_mapping_budget_zero_witness:
  "walk False ''='' (yaml_mapping [(''enabled'', yaml_scalar ''false'')]) [''a'', ''b''] 0
   = ([''a.b=<object>'' @ [CHR 0x0A]], None)"
  using walk_mapping_budget_zero [of "yaml_mapping [(''enabled'', yaml_scalar ''false'')]" False "''=''" "[''a'', ''b'']"]
  by (simp add: yaml_mapping_def yaml_scalar_def)

section \<open>Resolving: brackets that do not match\<close>

text \<open>
  C3. A malformed index is tolerated and read as index 0. For text between the brackets
  that is not a number this is so (\<open>containers[x]\<close> resolves as \<open>containers[0]\<close>), but a
  segment with an opening bracket and no closing one panics on the slice expression
  that cuts the index out.
\<close>

theorem findNodeByPath_unmatched_bracket:
  "findNodeByPath containers_values ''containers[1'' = Inl (Panicked SliceBoundsPanic)
   \<and> findNodeByPath containers_values ''containers[x]''
       = findNodeByPath containers_values ''containers[0]''"
  by (simp add: eval_defs)

section \<open>A sequence at the root\<close>

text \<open>
  C4, as stated: a root sequence walked with the empty prefix and a budget other than 0
  panics whenever the test for emptiness does not skip it. With \<open>includeEmpty\<close> set the
  test is not made, and an empty sequence has no element to index: the loop does not run
  and the walk returns, having written nothing.
\<close>

theorem walk_empty_sequence_no_panic:
  "walk True '': '' (yaml_sequence []) [] (- 1) = ([], None)
   \<and> main [] (- 1) True '': '' (yaml_document (yaml_sequence [])) = Wrote [] None"
  by (simp add: eval_defs)

text \<open>
  C4, amended: a sequence with at least one element, walked with the empty prefix and a
  budget other than 0, panics on the index \<open>len(p) - 1\<close> at its first element and writes no
  line; so does the program on a document whose root is such a sequence when no entry
  path is given.
\<close>

theorem walk_sequence_empty_prefix:
  assumes "Kind root = SequenceNode" and "Content root \<noteq> []" and "depth \<noteq> 0"
    and "kvSeparator = '': '' \<or> kvSeparator = ''=''"
  shows "walk includeEmpty kvSeparator root [] depth = ([], Some IndexPanic)
         \<and> main [] depth includeEmpty kvSeparator (Node k st v (root # more))
             = Wrote [] (Some IndexPanic)"
proof -
  obtain kind style val content where root: "root = Node kind style val content"
    by (cases root)
  from assms(2) root obtain item rest where content: "content = item # rest"
    by (cases content) auto
  have w: "walk includeEmpty kvSeparator root [] depth = ([], Some IndexPanic)"
    using assms(1,3) root content by (simp add: isEmptyNode_def)
  have "main [] depth includeEmpty kvSeparator (Node k st v (root # more))
      = (case walk includeEmpty kvSeparator root [] depth of (out, p) \<Rightarrow> Wrote out p)"
    using assms(4) unfolding main_def by auto
  with w show ?thesis by simp
qed

theorem walk_sequence_empty_prefix_witness:
  "walk False '': '' (yaml_sequence [yaml_scalar ''a'', yaml_scalar ''b'']) [] (- 1)
     = ([], Some IndexPanic)
   \<and> main [] (- 1) False '': '' (yaml_document (yaml_sequence [yaml_scalar ''a'', yaml_scalar ''b'']))
     = Wrote [] (Some IndexPanic)"
  using walk_sequence_empty_prefix [of "yaml_sequence [yaml_scalar ''a'', yaml_scalar ''b'']" "- 1" "'': ''" False DocumentNode 0 "[]" "[]"]
  by (simp add: yaml_sequence_def yaml_document_def)

section \<open>Resolving: the errors\<close>

lemma findNodeByPath_loop_append:
  "findNodeByPath_loop entrypoint current (before @ after)
   = (case findNodeByPath_loop entrypoint current before of
        Inl f \<Rightarrow> Inl f
      | Inr node \<Rightarrow> findNodeByPath_loop entrypoint node after)"
  by (induction before arbitrary: current) (auto split: sum.splits)

lemma getMapValue_loop_None:
  "getMapValue_loop content key = Inr None \<longleftrightarrow> key \<notin> set (mapping_keys content)"
  by (induction content key rule: getMapValue_loop.induct) auto

lemma getMapValue_None: "getMapValue node key = Inr None \<longleftrightarrow> lacks node key"
  by (auto simp: getMapValue_def lacks_def getMapValue_loop_None)

lemma findNodeByPath_body_plain:
  "\<not> Contains part ''['' \<Longrightarrow> lacks current part \<Longrightarrow>
   findNodeByPath_body entrypoint current part = Inl (Returned (InvalidFormat entrypoint))"
  by (simp add: findNodeByPath_body_def getMapValue_None [symmetric])

lemma findNodeByPath_body_key:
  "indexed part = Some (name, index) \<Longrightarrow> lacks current name \<Longrightarrow>
   findNodeByPath_body entrypoint current part = Inl (Returned (KeyNotFound name))"
  by (auto simp: findNodeByPath_body_def indexed_def getMapValue_None [symmetric] Let_def
      split: if_splits option.splits)

lemma findNodeByPath_body_index:
  "indexed part = Some (name, index) \<Longrightarrow> getMapValue current name = Inr (Some child) \<Longrightarrow>
   Kind child \<noteq> SequenceNode \<or> int (length (Content child)) \<le> index \<Longrightarrow>
   findNodeByPath_body entrypoint current part = Inl (Returned (IndexOutOfRange index name))"
  by (auto simp: findNodeByPath_body_def indexed_def Let_def split: if_splits option.splits)

lemma findNodeByPath_body_Returned:
  assumes "findNodeByPath_body entrypoint current part = Inl (Returned err)"
  shows "(\<not> Contains part ''['' \<and> lacks current part \<and> err = InvalidFormat entrypoint)
         \<or> (\<exists>name index. indexed part = Some (name, index)
              \<and> ((lacks current name \<and> err = KeyNotFound name)
                  \<or> (\<exists>child. getMapValue current name = Inr (Some child)
                       \<and> (Kind child \<noteq> SequenceNode \<or> int (length (Content child)) \<le> index)
                       \<and> err = IndexOutOfRange index name)))"
proof (cases "Contains part ''[''")
  case False
  with assms show ?thesis
    by (auto simp: findNodeByPath_body_def getMapValue_None [symmetric]
        split: sum.splits option.splits)
next
  case True
  with assms obtain name indexString where
    n: "slice part 0 (Index part ''['') = Some name"
    and i: "slice part (Index part ''['' + 1) (Index part '']'') = Some indexString"
    by (auto simp: findNodeByPath_body_def split: option.splits)
  with True have ix: "indexed part = Some (name, fst (Atoi indexString))"
    by (simp add: indexed_def)
  from assms True n i
  have "(getMapValue current name = Inr None \<and> err = KeyNotFound name)
      \<or> (\<exists>child. getMapValue current name = Inr (Some child)
           \<and> (Kind child \<noteq> SequenceNode \<or> int (length (Content child)) \<le> fst (Atoi indexString))
           \<and> err = IndexOutOfRange (fst (Atoi indexString)) name)"
    by (auto simp: findNodeByPath_body_def Let_def split: sum.splits option.splits if_splits)
  with ix show ?thesis by (auto simp: getMapValue_None)
qed

lemma findNodeByPath_loop_Returned:
  "findNodeByPath_loop entrypoint current parts = Inl (Returned err) \<Longrightarrow>
   \<exists>before node part after. parts = before @ part # after
     \<and> findNodeByPath_loop entrypoint current before = Inr node
     \<and> findNodeByPath_body entrypoint node part = Inl (Returned err)"
proof (induction parts arbitrary: current)
  case Nil
  then show ?case by simp
next
  case (Cons p ps)
  show ?case
  proof (cases "findNodeByPath_body entrypoint current p")
    case (Inl f)
    with Cons.prems have "findNodeByPath_body entrypoint current p = Inl (Returned err)" by simp
    then have "p # ps = [] @ p # ps \<and> findNodeByPath_loop entrypoint current [] = Inr current
        \<and> findNodeByPath_body entrypoint current p = Inl (Returned err)" by simp
    then show ?thesis by blast
  next
    case (Inr nxt)
    with Cons.prems have "findNodeByPath_loop entrypoint nxt ps = Inl (Returned err)" by simp
    from Cons.IH [OF this] obtain before node part after where
      "ps = before @ part # after" "findNodeByPath_loop entrypoint nxt before = Inr node"
      "findNodeByPath_body entrypoint node part = Inl (Returned err)" by blast
    with Inr have "p # ps = (p # before) @ part # after
        \<and> findNodeByPath_loop entrypoint current (p # before) = Inr node
        \<and> findNodeByPath_body entrypoint node part = Inl (Returned err)" by simp
    then show ?thesis by blast
  qed
qed

lemma reaches_body:
  "reaches root entry before current part after \<Longrightarrow>
   findNodeByPath_body entry current part = Inl f \<Longrightarrow> findNodeByPath root entry = Inl f"
  by (simp add: reaches_def findNodeByPath_def findNodeByPath_loop_append)

text \<open>
  C5, as stated: a plain segment that is not a key of the current node fails with the
  error \<open>KeyNotFound(name)\<close>, one of only two kinds of error. The program has a third
  error for this case, \<^verbatim>\<open>invalid format: <entry>\<close>, which carries the whole expression and
  not the segment; \<^verbatim>\<open>key <name> not found\<close> is only returned for an indexed segment.
\<close>

theorem plain_segment_error_is_invalid_format:
  "findNodeByPath alertmanager_values ''alertmanager.missing''
     = Inl (Returned (InvalidFormat ''alertmanager.missing''))
   \<and> Error (InvalidFormat ''alertmanager.missing'') = ''invalid format: alertmanager.missing''
   \<and> Error (KeyNotFound ''missing'') = ''key missing not found''
   \<and> findNodeByPath alertmanager_values ''alertmanager.missing''
     \<noteq> Inl (Returned (KeyNotFound ''missing''))"
  by (simp add: eval_defs)

text \<open>
  C5, amended: when resolution reaches a node with a plain segment next, and the node is
  not a mapping or the segment is none of its keys (the first pair with the key is the
  one looked up), \<^verbatim>\<open>findNodeByPath\<close> fails with the error \<^verbatim>\<open>invalid format: <entry>\<close> of the
  whole expression. When it reaches a node with an indexed segment \<open>name[N]\<close> next, it fails
  with \<^verbatim>\<open>key <name> not found\<close> if the node lacks the name, and with
  \<^verbatim>\<open>index [<N>] out of range for <name>\<close> if the value of the name is not a sequence or \<open>N\<close>
  is at least its length. These three are the only errors it returns, each only in the
  case named. Every error is terminal: the program prints it and writes no line.
\<close>

theorem findNodeByPath_errors:
  "(reaches root entry before current part after \<and> \<not> Contains part ''['' \<and> lacks current part
      \<longrightarrow> findNodeByPath root entry = Inl (Returned (InvalidFormat entry)))
   \<and> (reaches root entry before current part after \<and> indexed part = Some (name, index)
        \<and> lacks current name
      \<longrightarrow> findNodeByPath root entry = Inl (Returned (KeyNotFound name)))
   \<and> (reaches root entry before current part after \<and> indexed part = Some (name, index)
        \<and> getMapValue current name = Inr (Some child)
        \<and> (Kind child \<noteq> SequenceNode \<or> int (length (Content child)) \<le> index)
      \<longrightarrow> findNodeByPath root entry = Inl (Returned (IndexOutOfRange index name)))
   \<and> (findNodeByPath root entry = Inl (Returned err)
      \<longrightarrow> (\<exists>before current part after. reaches root entry before current part after
            \<and> ((\<not> Contains part ''['' \<and> lacks current part \<and> err = InvalidFormat entry)
                \<or> (\<exists>name index. indexed part = Some (name, index)
                     \<and> ((lacks current name \<and> err = KeyNotFound name)
                         \<or> (\<exists>child. getMapValue current name = Inr (Some child)
                              \<and> (Kind child \<noteq> SequenceNode
                                  \<or> int (length (Content child)) \<le> index)
                              \<and> err = IndexOutOfRange index name))))))
   \<and> (findNodeByPath root entry = Inl (Returned err) \<and> entry \<noteq> []
        \<and> (kvSeparator = '': '' \<or> kvSeparator = ''='')
      \<longrightarrow> main entry depth includeEmpty kvSeparator (Node k st v (root # more))
          = PrintedError (Error err))"
proof -
  have plain: "reaches root entry before current part after \<and> \<not> Contains part ''['' \<and> lacks current part
      \<longrightarrow> findNodeByPath root entry = Inl (Returned (InvalidFormat entry))"
    using reaches_body findNodeByPath_body_plain by blast
  have key: "reaches root entry before current part after \<and> indexed part = Some (name, index)
        \<and> lacks current name
      \<longrightarrow> findNodeByPath root entry = Inl (Returned (KeyNotFound name))"
    using reaches_body findNodeByPath_body_key by blast
  have range: "reaches root entry before current part after \<and> indexed part = Some (name, index)
        \<and> getMapValue current name = Inr (Some child)
        \<and> (Kind child \<noteq> SequenceNode \<or> int (length (Content child)) \<le> index)
      \<longrightarrow> findNodeByPath root entry = Inl (Returned (IndexOutOfRange index name))"
    using reaches_body findNodeByPath_body_index by blast
  have only: "findNodeByPath root entry = Inl (Returned err)
      \<longrightarrow> (\<exists>before current part after. reaches root entry before current part after
            \<and> ((\<not> Contains part ''['' \<and> lacks current part \<and> err = InvalidFormat entry)
                \<or> (\<exists>name index. indexed part = Some (name, index)
                     \<and> ((lacks current name \<and> err = KeyNotFound name)
                         \<or> (\<exists>child. getMapValue current name = Inr (Some child)
                              \<and> (Kind child \<noteq> SequenceNode
                                  \<or> int (length (Content child)) \<le> index)
                              \<and> err = IndexOutOfRange index name)))))"
  proof
    assume "findNodeByPath root entry = Inl (Returned err)"
    then have "findNodeByPath_loop entry root (Split entry ''.'') = Inl (Returned err)"
      by (simp add: findNodeByPath_def)
    from findNodeByPath_loop_Returned [OF this] obtain before node part after where
      s: "Split entry ''.'' = before @ part # after"
      and l: "findNodeByPath_loop entry root before = Inr node"
      and b: "findNodeByPath_body entry node part = Inl (Returned err)" by blast
    from s l have "reaches root entry before node part after" by (simp add: reaches_def)
    with findNodeByPath_body_Returned [OF b] show "\<exists>before current part after.
        reaches root entry before current part after
            \<and> ((\<not> Contains part ''['' \<and> lacks current part \<and> err = InvalidFormat entry)
                \<or> (\<exists>name index. indexed part = Some (name, index)
                     \<and> ((lacks current name \<and> err = KeyNotFound name)
                         \<or> (\<exists>child. getMapValue current name = Inr (Some child)
                              \<and> (Kind child \<noteq> SequenceNode
                                  \<or> int (length (Content child)) \<le> index)
                              \<and> err = IndexOutOfRange index name))))"
      by blast
  qed
  have printed: "findNodeByPath root entry = Inl (Returned err) \<and> entry \<noteq> []
        \<and> (kvSeparator = '': '' \<or> kvSeparator = ''='')
      \<longrightarrow> main entry depth includeEmpty kvSeparator (Node k st v (root # more))
          = PrintedError (Error err)"
    unfolding main_def by auto
  show ?thesis by (intro conjI plain key range only printed)
qed

theorem findNodeByPath_errors_witness:
  "findNodeByPath alertmanager_values ''alertmanager.missing''
     = Inl (Returned (InvalidFormat ''alertmanager.missing''))
   \<and> main ''alertmanager.missing'' (- 1) False '': '' (yaml_document alertmanager_values)
     = PrintedError ''invalid format: alertmanager.missing''
   \<and> findNodeByPath containers_values ''missing[0]'' = Inl (Returned (KeyNotFound ''missing''))
   \<and> main ''missing[0]'' (- 1) False '': '' (yaml_document containers_values)
     = PrintedError ''key missing not found''
   \<and> findNodeByPath containers_values ''containers[5].name''
     = Inl (Returned (IndexOutOfRange 5 ''containers''))
   \<and> main ''containers[5].name'' (- 1) False '': '' (yaml_document containers_values)
     = PrintedError ''index [5] out of range for containers''"
proof -
  note plain = findNodeByPath_errors [where root = alertmanager_values
      and entry = "''alertmanager.missing''" and before = "[''alertmanager'']"
      and part = "''missing''" and after = "[]"
      and current = "yaml_mapping
           [(''enabled'', yaml_scalar ''false''),
            (''namespaceOverride'', yaml_quoted []),
            (''annotations'', yaml_mapping [(''snooze'', yaml_scalar ''true'')]),
            (''apiVersion'', yaml_quoted ''v2'')]"
      and err = "InvalidFormat ''alertmanager.missing''" and kvSeparator = "'': ''"
      and depth = "- 1" and includeEmpty = False and k = DocumentNode and st = 0 and v = "[]"
      and more = "[]"]
  note key = findNodeByPath_errors [where root = containers_values
      and entry = "''missing[0]''" and before = "[]" and part = "''missing[0]''" and after = "[]"
      and current = containers_values and name = "''missing''" and index = 0
      and err = "KeyNotFound ''missing''" and kvSeparator = "'': ''"
      and depth = "- 1" and includeEmpty = False and k = DocumentNode and st = 0 and v = "[]"
      and more = "[]"]
  note range = findNodeByPath_errors [where root = containers_values
      and entry = "''containers[5].name''" and before = "[]" and part = "''containers[5]''"
      and after = "[''name'']" and current = containers_values and name = "''containers''"
      and index = 5
      and child = "yaml_sequence
           [yaml_mapping [(''name'', yaml_scalar ''a'')],
            yaml_mapping [(''name'', yaml_scalar ''b'')],
            yaml_mapping [(''name'', yaml_scalar ''c'')]]"
      and err = "IndexOutOfRange 5 ''containers''" and kvSeparator = "'': ''"
      and depth = "- 1" and includeEmpty = False and k = DocumentNode and st = 0 and v = "[]"
      and more = "[]"]
  have p: "findNodeByPath alertmanager_values ''alertmanager.missing''
     = Inl (Returned (InvalidFormat ''alertmanager.missing''))"
    using plain [THEN conjunct1] by (simp add: eval_defs reaches_def lacks_def)
  have k: "findNodeByPath containers_values ''missing[0]'' = Inl (Returned (KeyNotFound ''missing''))"
    using key [THEN conjunct2, THEN conjunct1]
    by (simp add: eval_defs reaches_def lacks_def indexed_def)
  have r: "findNodeByPath containers_values ''containers[5].name''
     = Inl (Returned (IndexOutOfRange 5 ''containers''))"
    using range [THEN conjunct2, THEN conjunct2, THEN conjunct1]
    by (simp add: eval_defs reaches_def lacks_def indexed_def)
  have "main ''alertmanager.missing'' (- 1) False '': '' (yaml_document alertmanager_values)
     = PrintedError ''invalid format: alertmanager.missing''"
    using p plain [THEN conjunct2, THEN conjunct2, THEN conjunct2, THEN conjunct2]
    by (simp add: yaml_document_def)
  moreover have "main ''missing[0]'' (- 1) False '': '' (yaml_document containers_values)
     = PrintedError ''key missing not found''"
    using k key [THEN conjunct2, THEN conjunct2, THEN conjunct2, THEN conjunct2]
    by (simp add: yaml_document_def)
  moreover have "main ''containers[5].name'' (- 1) False '': '' (yaml_document containers_values)
     = PrintedError ''index [5] out of range for containers''"
    using r range [THEN conjunct2, THEN conjunct2, THEN conjunct2, THEN conjunct2]
    by (simp add: yaml_document_def Sprintf_d_def decimal_digit)
  ultimately show ?thesis using p k r by simp
qed

section \<open>The scenario of the alertmanager values\<close>

text \<open>
  C6. For the document \<open>{alertmanager: {enabled: false, namespaceOverride: "",
  annotations: {snooze: true}, apiVersion: "v2"}}\<close>, the entry \<open>alertmanager\<close>, unlimited
  depth, empty values left out and the separator \<open>": "\<close>, the program writes exactly the
  three lines of \<open>enabled\<close>, \<open>annotations.snooze\<close> and \<open>apiVersion\<close>, in this order.
\<close>

theorem alertmanager_scenario:
  "main ''alertmanager'' (- 1) False '': '' (yaml_document alertmanager_values)
   = Wrote [''alertmanager.enabled: false'' @ [CHR 0x0A],
            ''alertmanager.annotations.snooze: true'' @ [CHR 0x0A],
            ''alertmanager.apiVersion: v2'' @ [CHR 0x0A]] None"
  by (simp add: eval_defs)

section \<open>Empty values\<close>

text \<open>
  With empty values left out, a barren node writes nothing while the budget lasts for
  its levels, and a walk that does not panic writes nothing only then.
\<close>

lemma walk_silent:
  "\<not> includeEmpty \<Longrightarrow>
   (barren node \<and> (remain < 0 \<or> int (levels node) \<le> remain)
      \<longrightarrow> fst (walk includeEmpty kvSeparator node path remain) = [])
   \<and> (snd (walk includeEmpty kvSeparator node path remain) = None
        \<and> fst (walk includeEmpty kvSeparator node path remain) = []
      \<longrightarrow> barren node \<and> (remain < 0 \<or> int (levels node) \<le> remain))"
  "\<not> includeEmpty \<Longrightarrow>
   (barren_values content \<and> (nextRem < 0 \<or> int (levels_values content) \<le> nextRem)
      \<longrightarrow> fst (walk_mapping includeEmpty kvSeparator content path nextRem) = [])
   \<and> (snd (walk_mapping includeEmpty kvSeparator content path nextRem) = None
        \<and> fst (walk_mapping includeEmpty kvSeparator content path nextRem) = []
      \<longrightarrow> barren_values content \<and> (nextRem < 0 \<or> int (levels_values content) \<le> nextRem))"
  "\<not> includeEmpty \<Longrightarrow>
   (barren_items content \<and> (nextRem < 0 \<or> int (levels_items content) \<le> nextRem)
      \<longrightarrow> fst (walk_sequence includeEmpty kvSeparator content path nextRem i) = [])
   \<and> (snd (walk_sequence includeEmpty kvSeparator content path nextRem i) = None
        \<and> fst (walk_sequence includeEmpty kvSeparator content path nextRem i) = []
      \<longrightarrow> barren_items content \<and> (nextRem < 0 \<or> int (levels_items content) \<le> nextRem))"
proof (induction includeEmpty kvSeparator node path remain
    and includeEmpty kvSeparator content path nextRem
    and includeEmpty kvSeparator content path nextRem i
    rule: walk_walk_mapping_walk_sequence.induct)
  case (1 includeEmpty kvSeparator kind style val content path remain)
  let ?node = "Node kind style val content"
  show ?case
  proof (cases "isEmptyNode ?node")
    case True
    then have "barren ?node" and "levels ?node = 0" by simp_all
    moreover from True "1.prems"
    have "walk includeEmpty kvSeparator ?node path remain = ([], None)"
      by (simp add: walk_skip_empty del: walk.simps)
    moreover have "remain < 0 \<or> 0 \<le> remain" by linarith
    ultimately show ?thesis by (simp del: walk.simps barren.simps levels.simps)
  next
    case False
    note ne = this
    with "1.prems" have go: "\<not> (\<not> includeEmpty \<and> isEmptyNode ?node)"
      and go': "includeEmpty \<or> \<not> isEmptyNode ?node" by simp_all
    show ?thesis
    proof (cases kind)
      case MappingNode
      from ne MappingNode have b: "barren ?node = barren_values content"
        and l: "levels ?node = 1 + levels_values content" by simp_all
      show ?thesis
      proof (cases "remain = 0")
        case True
        with go' MappingNode l show ?thesis by (simp add: walk_Mapping del: walk.simps)
      next
        case r: False
        define nr where "nr = (if remain > 0 then remain - 1 else remain)"
        from r l have budget: "(remain < 0 \<or> int (levels ?node) \<le> remain)
            = (nr < 0 \<or> int (levels_values content) \<le> nr)"
          unfolding nr_def by auto
        have w: "walk includeEmpty kvSeparator ?node path remain
            = walk_mapping includeEmpty kvSeparator content path nr"
          using go' MappingNode r unfolding nr_def by (simp add: walk_Mapping del: walk.simps)
        have ih: "(barren_values content \<and> (nr < 0 \<or> int (levels_values content) \<le> nr)
              \<longrightarrow> fst (walk_mapping includeEmpty kvSeparator content path nr) = [])
            \<and> (snd (walk_mapping includeEmpty kvSeparator content path nr) = None
                \<and> fst (walk_mapping includeEmpty kvSeparator content path nr) = []
              \<longrightarrow> barren_values content \<and> (nr < 0 \<or> int (levels_values content) \<le> nr))"
          using "1.IH"(2) [OF go MappingNode r "1.prems"] unfolding nr_def .
        show ?thesis unfolding w b budget by (rule ih)
      qed
    next
      case SequenceNode
      from ne SequenceNode have b: "barren ?node = barren_items content"
        and l: "levels ?node = 1 + levels_items content" by simp_all
      show ?thesis
      proof (cases "remain = 0")
        case True
        with go' SequenceNode l show ?thesis by (simp add: walk_Sequence del: walk.simps)
      next
        case r: False
        define nr where "nr = (if remain > 0 then remain - 1 else remain)"
        from r l have budget: "(remain < 0 \<or> int (levels ?node) \<le> remain)
            = (nr < 0 \<or> int (levels_items content) \<le> nr)"
          unfolding nr_def by auto
        have w: "walk includeEmpty kvSeparator ?node path remain
            = walk_sequence includeEmpty kvSeparator content path nr 0"
          using go' SequenceNode r unfolding nr_def by (simp add: walk_Sequence del: walk.simps)
        have ih: "(barren_items content \<and> (nr < 0 \<or> int (levels_items content) \<le> nr)
              \<longrightarrow> fst (walk_sequence includeEmpty kvSeparator content path nr 0) = [])
            \<and> (snd (walk_sequence includeEmpty kvSeparator content path nr 0) = None
                \<and> fst (walk_sequence includeEmpty kvSeparator content path nr 0) = []
              \<longrightarrow> barren_items content \<and> (nr < 0 \<or> int (levels_items content) \<le> nr))"
          using "1.IH"(1) [OF go SequenceNode r "1.prems"] unfolding nr_def .
        show ?thesis unfolding w b budget by (rule ih)
      qed
    next
      case DocumentNode
      with ne go' show ?thesis by (simp add: walk_leaf walk_default_not_Nil del: walk.simps)
    next
      case ScalarNode
      with ne go' show ?thesis by (simp add: walk_leaf walk_default_not_Nil del: walk.simps)
    next
      case AliasNode
      with ne go' show ?thesis by (simp add: walk_leaf walk_default_not_Nil del: walk.simps)
    qed
  qed
next
  case (2 includeEmpty kvSeparator path nextRem)
  show ?case by auto
next
  case (3 includeEmpty kvSeparator keyNode path nextRem)
  show ?case by auto
next
  case (4 includeEmpty kvSeparator keyNode valueNode rest path nextRem)
  let ?a = "walk includeEmpty kvSeparator valueNode (path @ [Value keyNode]) nextRem"
  let ?b = "walk_mapping includeEmpty kvSeparator rest path nextRem"
  note a = "4.IH"(1) [OF "4.prems"] and b = "4.IH"(2) [OF "4.prems"]
  have fwd: "barren_values (keyNode # valueNode # rest)
        \<and> (nextRem < 0 \<or> int (levels_values (keyNode # valueNode # rest)) \<le> nextRem)
      \<longrightarrow> fst (next_after ?a ?b) = []"
  proof
    assume h: "barren_values (keyNode # valueNode # rest)
        \<and> (nextRem < 0 \<or> int (levels_values (keyNode # valueNode # rest)) \<le> nextRem)"
    then have "barren valueNode \<and> (nextRem < 0 \<or> int (levels valueNode) \<le> nextRem)"
      and "barren_values rest \<and> (nextRem < 0 \<or> int (levels_values rest) \<le> nextRem)"
      by auto
    with a b have "fst ?a = []" and "fst ?b = []" by blast+
    then show "fst (next_after ?a ?b) = []" by (rule next_after_fst_Nil)
  qed
  have bwd: "snd (next_after ?a ?b) = None \<and> fst (next_after ?a ?b) = []
      \<longrightarrow> barren_values (keyNode # valueNode # rest)
          \<and> (nextRem < 0 \<or> int (levels_values (keyNode # valueNode # rest)) \<le> nextRem)"
  proof
    assume h: "snd (next_after ?a ?b) = None \<and> fst (next_after ?a ?b) = []"
    then have n: "snd ?a = None" "snd ?b = None" by (simp_all add: next_after_None)
    with h have "fst ?a = []" "fst ?b = []" by (simp_all add: next_after_returned)
    with n a b have "barren valueNode \<and> (nextRem < 0 \<or> int (levels valueNode) \<le> nextRem)"
      and "barren_values rest \<and> (nextRem < 0 \<or> int (levels_values rest) \<le> nextRem)"
      by blast+
    then show "barren_values (keyNode # valueNode # rest)
          \<and> (nextRem < 0 \<or> int (levels_values (keyNode # valueNode # rest)) \<le> nextRem)"
      by auto
  qed
  have eq: "walk_mapping includeEmpty kvSeparator (keyNode # valueNode # rest) path nextRem
      = next_after ?a ?b" by simp
  show ?case unfolding eq by (intro conjI fwd bwd)
next
  case (5 includeEmpty kvSeparator path nextRem i)
  show ?case by auto
next
  case (6 includeEmpty kvSeparator item rest path nextRem i)
  show ?case
  proof (cases "path = []")
    case True
    then show ?thesis by simp
  next
    case False
    let ?a = "walk includeEmpty kvSeparator item
        (path[length path - 1 := path ! (length path - 1) @ ''['' @ Sprintf_d i @ '']'']) nextRem"
    let ?b = "walk_sequence includeEmpty kvSeparator rest path nextRem (i + 1)"
    note a = "6.IH"(1) [OF False "6.prems"] and b = "6.IH"(2) [OF False "6.prems"]
    have fwd: "barren_items (item # rest)
          \<and> (nextRem < 0 \<or> int (levels_items (item # rest)) \<le> nextRem)
        \<longrightarrow> fst (next_after ?a ?b) = []"
    proof
      assume h: "barren_items (item # rest)
          \<and> (nextRem < 0 \<or> int (levels_items (item # rest)) \<le> nextRem)"
      then have "barren item \<and> (nextRem < 0 \<or> int (levels item) \<le> nextRem)"
        and "barren_items rest \<and> (nextRem < 0 \<or> int (levels_items rest) \<le> nextRem)"
        by auto
      with a b have "fst ?a = []" and "fst ?b = []" by blast+
      then show "fst (next_after ?a ?b) = []" by (rule next_after_fst_Nil)
    qed
    have bwd: "snd (next_after ?a ?b) = None \<and> fst (next_after ?a ?b) = []
        \<longrightarrow> barren_items (item # rest)
            \<and> (nextRem < 0 \<or> int (levels_items (item # rest)) \<le> nextRem)"
    proof
      assume h: "snd (next_after ?a ?b) = None \<and> fst (next_after ?a ?b) = []"
      then have n: "snd ?a = None" "snd ?b = None" by (simp_all add: next_after_None)
      with h have "fst ?a = []" "fst ?b = []" by (simp_all add: next_after_returned)
      with n a b have "barren item \<and> (nextRem < 0 \<or> int (levels item) \<le> nextRem)"
        and "barren_items rest \<and> (nextRem < 0 \<or> int (levels_items rest) \<le> nextRem)"
        by blast+
      then show "barren_items (item # rest)
            \<and> (nextRem < 0 \<or> int (levels_items (item # rest)) \<le> nextRem)"
        by auto
    qed
    have eq: "walk_sequence includeEmpty kvSeparator (item # rest) path nextRem i
        = next_after ?a ?b" using False by simp
    show ?thesis unfolding eq by (intro conjI fwd bwd)
  qed
qed

text \<open>
  C7, as stated: with \<open>includeEmpty\<close> unset, a mapping whose every descendant is empty
  produces no line at all. At budget 0 a mapping that has children is not empty itself,
  so it is not skipped, and the budget test writes its \<open><object>\<close> line, whatever is under
  it.
\<close>

theorem walk_barren_mapping_budget_zero:
  "barren (yaml_mapping [(''a'', yaml_scalar [])])
   \<and> walk False '': '' (yaml_mapping [(''a'', yaml_scalar [])]) [''p''] 0
       = ([''p: <object>'' @ [CHR 0x0A]], None)"
  by (simp add: eval_defs)

text \<open>
  C7, amended: a scalar is empty iff its trimmed value is the empty string, a mapping or
  a sequence iff it has no children. With \<open>includeEmpty\<close> unset \<^verbatim>\<open>walk\<close> writes nothing for an
  empty node, and skips exactly the empty nodes: what it writes is the lines of the
  descendants within the budget that are not empty, in the order of the document (all
  of them unless it panics, and then those before the panic). A node whose every
  descendant is empty produces no line when the budget is unlimited or at least the
  number of its levels, and a walk that does not panic produces no line only for such a
  node with such a budget. With \<open>includeEmpty\<close> set the test is not made: what is written
  is the lines of all descendants within the budget, empty or not.
\<close>

theorem walk_empty_nodes:
  "(Kind node = ScalarNode \<longrightarrow> isEmptyNode node = (TrimSpace (Value node) = []))
   \<and> (Kind node = MappingNode \<or> Kind node = SequenceNode
        \<longrightarrow> isEmptyNode node = (Content node = []))
   \<and> (isEmptyNode node \<longrightarrow> walk False kvSeparator node path remain = ([], None))
   \<and> prefix (fst (walk False kvSeparator node path remain))
         (lines_of False kvSeparator remain (descendants 0 path node))
   \<and> (snd (walk False kvSeparator node path remain) = None
        \<longrightarrow> fst (walk False kvSeparator node path remain)
            = lines_of False kvSeparator remain (descendants 0 path node))
   \<and> (barren node \<and> (remain < 0 \<or> int (levels node) \<le> remain)
        \<longrightarrow> fst (walk False kvSeparator node path remain) = [])
   \<and> (snd (walk False kvSeparator node path remain) = None
        \<and> fst (walk False kvSeparator node path remain) = []
        \<longrightarrow> barren node \<and> (remain < 0 \<or> int (levels node) \<le> remain))
   \<and> prefix (fst (walk True kvSeparator node path remain))
         (lines_of True kvSeparator remain (descendants 0 path node))
   \<and> (snd (walk True kvSeparator node path remain) = None
        \<longrightarrow> fst (walk True kvSeparator node path remain)
            = lines_of True kvSeparator remain (descendants 0 path node))"
proof -
  have scalar: "Kind node = ScalarNode \<longrightarrow> isEmptyNode node = (TrimSpace (Value node) = [])"
    by (simp add: isEmptyNode_def)
  have branch: "Kind node = MappingNode \<or> Kind node = SequenceNode
      \<longrightarrow> isEmptyNode node = (Content node = [])"
    by (auto simp: isEmptyNode_def)
  have skipped: "isEmptyNode node \<longrightarrow> walk False kvSeparator node path remain = ([], None)"
    by (simp add: walk_skip_empty)
  have exact: "snd (walk False kvSeparator node path remain) = None
      \<longrightarrow> fst (walk False kvSeparator node path remain)
          = lines_of False kvSeparator remain (descendants 0 path node)"
    using walk_lines(2) by blast
  have silent: "barren node \<and> (remain < 0 \<or> int (levels node) \<le> remain)
      \<longrightarrow> fst (walk False kvSeparator node path remain) = []"
    using walk_silent(1) [of False node remain kvSeparator path] by blast
  have tight: "snd (walk False kvSeparator node path remain) = None
        \<and> fst (walk False kvSeparator node path remain) = []
      \<longrightarrow> barren node \<and> (remain < 0 \<or> int (levels node) \<le> remain)"
    using walk_silent(1) [of False node remain kvSeparator path] by blast
  have every: "snd (walk True kvSeparator node path remain) = None
      \<longrightarrow> fst (walk True kvSeparator node path remain)
          = lines_of True kvSeparator remain (descendants 0 path node)"
    using walk_lines(2) by blast
  show ?thesis
    by (intro conjI scalar branch skipped walk_lines(1) exact silent tight every)
qed

theorem walk_empty_nodes_witness:
  "walk False '': '' (yaml_scalar ''  '') [''a''] (- 1) = ([], None)
   \<and> barren (yaml_mapping [(''a'', yaml_scalar []), (''b'', yaml_mapping [(''c'', yaml_sequence [])])])
   \<and> levels (yaml_mapping [(''a'', yaml_scalar []), (''b'', yaml_mapping [(''c'', yaml_sequence [])])])
       = 2
   \<and> fst (walk False '': ''
          (yaml_mapping [(''a'', yaml_scalar []), (''b'', yaml_mapping [(''c'', yaml_sequence [])])])
          [] 2) = []
   \<and> lines_of False '': '' (- 1)
         (descendants 0 [''r''] (yaml_mapping [(''x'', yaml_scalar ''1''), (''y'', yaml_scalar [])]))
       = [''r.x: 1'' @ [CHR 0x0A]]
   \<and> lines_of True '': '' (- 1)
         (descendants 0 [''r''] (yaml_mapping [(''x'', yaml_scalar ''1''), (''y'', yaml_scalar [])]))
       = [''r.x: 1'' @ [CHR 0x0A], ''r.y: '' @ [CHR 0x0A]]"
proof -
  let ?t = "yaml_mapping [(''a'', yaml_scalar []), (''b'', yaml_mapping [(''c'', yaml_sequence [])])]"
  let ?m = "yaml_mapping [(''x'', yaml_scalar ''1''), (''y'', yaml_scalar [])]"
  have b: "barren ?t" and l: "levels ?t = 2" by (simp_all add: eval_defs)
  have "walk False '': '' (yaml_scalar ''  '') [''a''] (- 1) = ([], None)"
    using walk_empty_nodes [of "yaml_scalar ''  ''" "'': ''" "[''a'']" "- 1"]
    by (simp add: eval_defs)
  moreover have "fst (walk False '': '' ?t [] 2) = []"
    using walk_empty_nodes [of ?t "'': ''" "[]" 2] b l by simp
  moreover have "lines_of False '': '' (- 1) (descendants 0 [''r''] ?m) = [''r.x: 1'' @ [CHR 0x0A]]"
    using walk_empty_nodes [of ?m "'': ''" "[''r'']" "- 1"] by (simp add: eval_defs)
  moreover have "lines_of True '': '' (- 1) (descendants 0 [''r''] ?m)
      = [''r.x: 1'' @ [CHR 0x0A], ''r.y: '' @ [CHR 0x0A]]"
    using walk_empty_nodes [of ?m "'': ''" "[''r'']" "- 1"] by (simp add: eval_defs)
  ultimately show ?thesis using b l by simp
qed

section \<open>Scalars of one line\<close>

text \<open>Where the first occurrence of a separator of one or two characters is.\<close>

lemma Index_char: "c \<notin> set a \<Longrightarrow> Index (a @ c # b) [c] = int (length a)"
  by (induction a) (auto simp: Let_def)

lemma Index_two_chars:
  "c \<noteq> d \<Longrightarrow> Index a [c, d] < 0 \<Longrightarrow> Index (a @ c # d # b) [c, d] = int (length a)"
proof (induction a)
  case Nil
  then show ?case by simp
next
  case (Cons x a)
  from Cons.prems(2) have np: "\<not> prefix [c, d] (x # a)" and rest: "Index a [c, d] < 0"
    by (auto simp: Let_def split: if_splits)
  from np Cons.prems(1) have "\<not> prefix [c, d] (x # a @ c # d # b)"
    by (cases a) auto
  with Cons.IH [OF Cons.prems(1) rest] show ?case by (simp add: Let_def)
qed

lemma Index_absent_char: "Index b [c] < 0 \<Longrightarrow> c \<notin> set b"
  by (induction b) (auto simp: Let_def split: if_splits)

text \<open>
  Cutting \<open>a<separator>b\<close> at the separator gives back \<open>a\<close> and \<open>b\<close> when neither contains
  the separator, for the two separators the program accepts.
\<close>

lemma Split_between:
  assumes sep: "kvSeparator = '': '' \<or> kvSeparator = ''=''"
    and a: "\<not> Contains a kvSeparator" and b: "\<not> Contains b kvSeparator"
  shows "Split (a @ kvSeparator @ b) kvSeparator = [a, b]"
proof -
  from a b have a': "Index a kvSeparator < 0" and b': "Index b kvSeparator < 0"
    by (simp_all add: Contains_def)
  from sep have ne: "kvSeparator \<noteq> []" by auto
  have ix: "Index (a @ kvSeparator @ b) kvSeparator = int (length a)"
  proof -
    from sep show ?thesis
    proof
      assume s: "kvSeparator = '': ''"
      with a' show ?thesis using Index_two_chars [of "CHR '':''" "CHR '' ''" a b] by simp
    next
      assume s: "kvSeparator = ''=''"
      with a' show ?thesis using Index_char [of "CHR ''=''" a b] Index_absent_char [of a "CHR ''=''"] by simp
    qed
  qed
  have "Split (a @ kvSeparator @ b) kvSeparator
        = take (length a) (a @ kvSeparator @ b)
          # Split (drop (length a + length kvSeparator) (a @ kvSeparator @ b)) kvSeparator"
    using ne ix by (subst Split_some) simp_all
  also have "\<dots> = a # Split b kvSeparator" by simp
  also have "\<dots> = [a, b]" using ne b' by (simp add: Split_none)
  finally show ?thesis .
qed

text \<open>
  C8, as stated: a value without special characters is written as it is, so that
  splitting the line at the separator gives the value back. With the separator \<open>=\<close> the
  value may contain the separator itself, and so may a key: the line of the key \<open>x=y\<close> and
  the value \<open>a=b\<close> splits into four pieces, none of which is the value.
\<close>

theorem walk_separator_in_value:
  "walk False ''='' (yaml_scalar ''a=b'') [''x=y''] (- 1) = ([''x=y=a=b'' @ [CHR 0x0A]], None)
   \<and> Split ''x=y=a=b'' ''='' = [''x'', ''y'', ''a'', ''b'']
   \<and> ''a=b'' \<notin> set (Split ''x=y=a=b'' ''='')"
  by (simp add: eval_defs)

text \<open>
  C8, amended: a scalar that is not skipped as empty, with no newline in its value and a
  style that is neither the literal nor the folded block, is written as one line: the
  value in double quotes, with each double quote in it behind a backslash, when the value
  contains one of the characters \<open>:[]{},\<close> or starts or ends with a space, and the value as
  it is otherwise. When neither the joined path nor the value contains the separator
  (one of \<open>": "\<close> and \<open>"="\<close>), splitting \<open><path><separator><value>\<close> at the separator gives
  the path and the value back.
\<close>

theorem walk_single_line_scalar:
  assumes "Kind node = ScalarNode"
    and "\<not> Contains (Value node) [CHR 0x0A]"
    and "Style node \<noteq> LiteralStyle" and "Style node \<noteq> FoldedStyle"
    and "includeEmpty \<or> \<not> isEmptyNode node"
  shows "walk includeEmpty kvSeparator node path remain
         = ([Join path ''.'' @ kvSeparator
             @ (if ContainsAny (Value node) '':[]{},''
                   \<or> HasPrefix (Value node) '' '' \<or> HasSuffix (Value node) '' ''
                then [CHR 0x22] @ ReplaceAll (Value node) (CHR 0x22) [CHR 0x5C, CHR 0x22] @ [CHR 0x22]
                else Value node)
             @ [CHR 0x0A]], None)
         \<and> ((kvSeparator = '': '' \<or> kvSeparator = ''='')
              \<and> \<not> Contains (Join path ''.'') kvSeparator
              \<and> \<not> Contains (Value node) kvSeparator
              \<longrightarrow> Split (Join path ''.'' @ kvSeparator @ Value node) kvSeparator
                  = [Join path ''.'', Value node])"
proof -
  have "walk includeEmpty kvSeparator node path remain = (walk_default kvSeparator node path, None)"
    using assms(1,5) by (intro walk_leaf) auto
  with assms(1-4) have "walk includeEmpty kvSeparator node path remain
         = ([Join path ''.'' @ kvSeparator
             @ (if ContainsAny (Value node) '':[]{},''
                   \<or> HasPrefix (Value node) '' '' \<or> HasSuffix (Value node) '' ''
                then [CHR 0x22] @ ReplaceAll (Value node) (CHR 0x22) [CHR 0x5C, CHR 0x22] @ [CHR 0x22]
                else Value node)
             @ [CHR 0x0A]], None)"
    by (simp add: walk_default_def Let_def)
  then show ?thesis by (simp add: Split_between)
qed

theorem walk_single_line_scalar_witness:
  "walk False '': '' (yaml_scalar ''v2'') [''alertmanager'', ''apiVersion''] (- 1)
     = ([''alertmanager.apiVersion: v2'' @ [CHR 0x0A]], None)
   \<and> Split ''alertmanager.apiVersion: v2'' '': '' = [''alertmanager.apiVersion'', ''v2'']
   \<and> walk False ''='' (yaml_scalar ('' say '' @ [CHR 0x22] @ ''[x]'' @ [CHR 0x22])) [''a''] 0
     = ([''a='' @ [CHR 0x22] @ '' say '' @ [CHR 0x5C, CHR 0x22] @ ''[x]'' @ [CHR 0x5C, CHR 0x22]
           @ [CHR 0x22] @ [CHR 0x0A]], None)"
  using walk_single_line_scalar [of "yaml_scalar ''v2''" False "'': ''" "[''alertmanager'', ''apiVersion'']" "- 1"]
    walk_single_line_scalar [of "yaml_scalar ('' say '' @ [CHR 0x22] @ ''[x]'' @ [CHR 0x22])" False "''=''" "[''a'']" 0]
  by (simp add: eval_defs)

section \<open>Scalars of several lines\<close>








text \<open>
  A block scalar that is written with its tag has the flag of the tag in its style
  besides the flag of the block. The program compares the style with the one flag, so
  it takes such a scalar of one line for a plain one:
\<close>

lemma walk_tagged_block_scalar:
  "walk False '': '' (Node ScalarNode (TaggedStyle + LiteralStyle) ''a'' []) [''k''] (- 1)
   = ([''k: a'' @ [CHR 0x0A]], None)"
  by (simp add: eval_defs TaggedStyle_def)



section \<open>The depth budget\<close>

text \<open>A negative budget is never used up: it gives what any budget from the height on gives.\<close>

lemma walk_unlimited:
  "remain < 0 \<Longrightarrow> int (height node) \<le> d
     \<Longrightarrow> walk includeEmpty kvSeparator node path remain = walk includeEmpty kvSeparator node path d"
  "nextRem < 0 \<Longrightarrow> int (height_values content) \<le> d
     \<Longrightarrow> walk_mapping includeEmpty kvSeparator content path nextRem
         = walk_mapping includeEmpty kvSeparator content path d"
  "nextRem < 0 \<Longrightarrow> int (height_items content) \<le> d
     \<Longrightarrow> walk_sequence includeEmpty kvSeparator content path nextRem i
         = walk_sequence includeEmpty kvSeparator content path d i"
proof (induction includeEmpty kvSeparator node path remain
    and includeEmpty kvSeparator content path nextRem
    and includeEmpty kvSeparator content path nextRem i
    arbitrary: d and d and d
    rule: walk_walk_mapping_walk_sequence.induct)
  case (1 includeEmpty kvSeparator kind style val content path remain)
  show ?case
  proof (cases "\<not> includeEmpty \<and> isEmptyNode (Node kind style val content)")
    case True
    then show ?thesis by simp
  next
    case False
    note go = this
    then have go': "includeEmpty \<or> \<not> isEmptyNode (Node kind style val content)" by blast
    from "1.prems"(1) have r: "remain \<noteq> 0" by simp
    show ?thesis
    proof (cases kind)
      case MappingNode
      with "1.prems"(2) have d: "int (height_values content) \<le> d - 1" and dpos: "0 < d" by simp_all
      have "walk_mapping includeEmpty kvSeparator content path (if remain > 0 then remain - 1 else remain)
          = walk_mapping includeEmpty kvSeparator content path (d - 1)"
        using "1.prems"(1) d by (intro "1.IH"(2) [OF go MappingNode r]) simp_all
      with go' MappingNode r dpos "1.prems"(1) show ?thesis
        by (simp add: walk_Mapping del: walk.simps)
    next
      case SequenceNode
      with "1.prems"(2) have d: "int (height_items content) \<le> d - 1" and dpos: "0 < d" by simp_all
      have "walk_sequence includeEmpty kvSeparator content path (if remain > 0 then remain - 1 else remain) 0
          = walk_sequence includeEmpty kvSeparator content path (d - 1) 0"
        using "1.prems"(1) d by (intro "1.IH"(1) [OF go SequenceNode r]) simp_all
      with go' SequenceNode r dpos "1.prems"(1) show ?thesis
        by (simp add: walk_Sequence del: walk.simps)
    next
      case DocumentNode
      then show ?thesis by simp
    next
      case ScalarNode
      then show ?thesis by simp
    next
      case AliasNode
      then show ?thesis by simp
    qed
  qed
next
  case (2 includeEmpty kvSeparator path nextRem)
  show ?case by simp
next
  case (3 includeEmpty kvSeparator keyNode path nextRem)
  show ?case by simp
next
  case (4 includeEmpty kvSeparator keyNode valueNode rest path nextRem)
  from "4.prems" have "walk includeEmpty kvSeparator valueNode (path @ [Value keyNode]) nextRem
      = walk includeEmpty kvSeparator valueNode (path @ [Value keyNode]) d"
    by (intro "4.IH"(1)) simp_all
  moreover from "4.prems" have "walk_mapping includeEmpty kvSeparator rest path nextRem
      = walk_mapping includeEmpty kvSeparator rest path d"
    by (intro "4.IH"(2)) simp_all
  ultimately show ?case by simp
next
  case (5 includeEmpty kvSeparator path nextRem i)
  show ?case by simp
next
  case (6 includeEmpty kvSeparator item rest path nextRem i)
  show ?case
  proof (cases "path = []")
    case True
    then show ?thesis by simp
  next
    case False
    from "6.prems" have "walk includeEmpty kvSeparator item
        (path[length path - 1 := path ! (length path - 1) @ ''['' @ Sprintf_d i @ '']'']) nextRem
      = walk includeEmpty kvSeparator item
        (path[length path - 1 := path ! (length path - 1) @ ''['' @ Sprintf_d i @ '']'']) d"
      by (intro "6.IH"(1) [OF False]) simp_all
    moreover from "6.prems" have "walk_sequence includeEmpty kvSeparator rest path nextRem (i + 1)
      = walk_sequence includeEmpty kvSeparator rest path d (i + 1)"
      by (intro "6.IH"(2) [OF False]) simp_all
    ultimately show ?thesis using False by simp
  qed
qed

text \<open>
  C10, as stated: with budget \<open>d\<close>, the path of every line has at most \<open>d\<close> more segments,
  separated by \<open>.\<close> or of the form \<open>[N]\<close>, than the prefix. A key is written into the path as
  it is, so a key with a dot in it is one descent of the walk but two segments of the
  line: with budget 1 and the empty prefix, the mapping \<open>{a.b: v}\<close> gives the line \<open>a.b: v\<close>.
\<close>

theorem walk_key_with_dot:
  "walk False '': '' (yaml_mapping [(''a.b'', yaml_scalar ''v'')]) [] 1
     = ([''a.b: v'' @ [CHR 0x0A]], None)
   \<and> Split ''a.b'' ''.'' = [''a'', ''b'']
   \<and> 1 < length (Split ''a.b'' ''.'')"
  by (simp add: eval_defs)

text \<open>
  C10, amended: for every tree, prefix and budget, what is written is the lines of the
  descendants that are walked, in the order of the document (all of them unless the walk
  panics, and then those before the panic). With a budget \<open>d \<ge> 0\<close>, every line written is
  therefore a line of a node of the tree at most \<open>d\<close> descents below the start node, with
  the path of that node: the prefix and one segment for each descent, the key of the
  tree as it is (one segment whatever characters it has) or the index \<open>[i]\<close> of the element
  attached to the segment before; a mapping or a sequence has its placeholder line
  exactly when it lies \<open>d\<close> descents down. A negative budget means unlimited depth: it
  writes what every budget from the height of the tree on writes. Each descent takes
  exactly one off a positive budget and leaves a negative one as it is: a mapping or a
  sequence that is walked with budget \<open>remain \<noteq> 0\<close> writes what its children write in walks
  with the budget \<open>remain - 1\<close>, or \<open>remain\<close> when that is negative.
\<close>

theorem walk_depth_budget:
  "prefix (fst (walk includeEmpty kvSeparator node path remain))
       (lines_of includeEmpty kvSeparator remain (descendants 0 path node))
   \<and> (snd (walk includeEmpty kvSeparator node path remain) = None \<longrightarrow>
        fst (walk includeEmpty kvSeparator node path remain)
        = lines_of includeEmpty kvSeparator remain (descendants 0 path node))
   \<and> (0 \<le> remain \<longrightarrow>
        (\<forall>w \<in> set (fst (walk includeEmpty kvSeparator node path remain)).
           \<exists>x \<in> set (descendants 0 path node).
             int (fst x) \<le> remain \<and> w \<in> set (node_lines kvSeparator remain x)))
   \<and> (remain < 0 \<and> int (height node) \<le> budget \<longrightarrow>
        walk includeEmpty kvSeparator node path remain
        = walk includeEmpty kvSeparator node path budget)
   \<and> (Kind node = MappingNode \<and> (includeEmpty \<or> \<not> isEmptyNode node) \<and> remain \<noteq> 0
        \<and> snd (walk includeEmpty kvSeparator node path remain) = None \<longrightarrow>
        fst (walk includeEmpty kvSeparator node path remain)
        = concat (map (\<lambda>(key, valueNode).
                         fst (walk includeEmpty kvSeparator valueNode (path @ [key])
                                (if remain > 0 then remain - 1 else remain)))
                    (mapping_pairs (Content node))))
   \<and> (Kind node = SequenceNode \<and> (includeEmpty \<or> \<not> isEmptyNode node) \<and> remain \<noteq> 0
        \<and> snd (walk includeEmpty kvSeparator node path remain) = None \<longrightarrow>
        fst (walk includeEmpty kvSeparator node path remain)
        = concat (map (\<lambda>(i, item).
                         fst (walk includeEmpty kvSeparator item (with_index path i)
                                (if remain > 0 then remain - 1 else remain)))
                    (numbered 0 (Content node))))"
proof -
  have exact: "snd (walk includeEmpty kvSeparator node path remain) = None \<longrightarrow>
        fst (walk includeEmpty kvSeparator node path remain)
        = lines_of includeEmpty kvSeparator remain (descendants 0 path node)"
    using walk_lines(2) by blast
  have bound: "0 \<le> remain \<longrightarrow>
        (\<forall>w \<in> set (fst (walk includeEmpty kvSeparator node path remain)).
           \<exists>x \<in> set (descendants 0 path node).
             int (fst x) \<le> remain \<and> w \<in> set (node_lines kvSeparator remain x))"
  proof (intro impI ballI)
    fix w
    assume r: "0 \<le> remain"
      and w: "w \<in> set (fst (walk includeEmpty kvSeparator node path remain))"
    from w set_mono_prefix [OF walk_lines(1) [of includeEmpty kvSeparator node path remain]]
    have "w \<in> set (lines_of includeEmpty kvSeparator remain (descendants 0 path node))" by blast
    then show "\<exists>x \<in> set (descendants 0 path node).
        int (fst x) \<le> remain \<and> w \<in> set (node_lines kvSeparator remain x)"
      using r by (rule lines_of_member)
  qed
  have unlimited: "remain < 0 \<and> int (height node) \<le> budget \<longrightarrow>
        walk includeEmpty kvSeparator node path remain
        = walk includeEmpty kvSeparator node path budget"
    using walk_unlimited(1) by blast
  have pairs: "Kind node = MappingNode \<and> (includeEmpty \<or> \<not> isEmptyNode node) \<and> remain \<noteq> 0
        \<and> snd (walk includeEmpty kvSeparator node path remain) = None \<longrightarrow>
        fst (walk includeEmpty kvSeparator node path remain)
        = concat (map (\<lambda>(key, valueNode).
                         fst (walk includeEmpty kvSeparator valueNode (path @ [key])
                                (if remain > 0 then remain - 1 else remain)))
                    (mapping_pairs (Content node)))"
  proof (cases node)
    case (Node kind style val content)
    show ?thesis
    proof (intro impI, elim conjE)
      assume k: "Kind node = MappingNode" and go: "includeEmpty \<or> \<not> isEmptyNode node"
        and r: "remain \<noteq> 0" and n: "snd (walk includeEmpty kvSeparator node path remain) = None"
      from k go r Node have "walk includeEmpty kvSeparator node path remain
          = walk_mapping includeEmpty kvSeparator content path
              (if remain > 0 then remain - 1 else remain)"
        by (simp add: walk_Mapping del: walk.simps)
      with n Node walk_mapping_children [of includeEmpty kvSeparator content path
          "if remain > 0 then remain - 1 else remain"]
      show "fst (walk includeEmpty kvSeparator node path remain)
        = concat (map (\<lambda>(key, valueNode).
                         fst (walk includeEmpty kvSeparator valueNode (path @ [key])
                                (if remain > 0 then remain - 1 else remain)))
                    (mapping_pairs (Content node)))"
        by (simp del: walk.simps)
    qed
  qed
  have items: "Kind node = SequenceNode \<and> (includeEmpty \<or> \<not> isEmptyNode node) \<and> remain \<noteq> 0
        \<and> snd (walk includeEmpty kvSeparator node path remain) = None \<longrightarrow>
        fst (walk includeEmpty kvSeparator node path remain)
        = concat (map (\<lambda>(i, item).
                         fst (walk includeEmpty kvSeparator item (with_index path i)
                                (if remain > 0 then remain - 1 else remain)))
                    (numbered 0 (Content node)))"
  proof (cases node)
    case (Node kind style val content)
    show ?thesis
    proof (intro impI, elim conjE)
      assume k: "Kind node = SequenceNode" and go: "includeEmpty \<or> \<not> isEmptyNode node"
        and r: "remain \<noteq> 0" and n: "snd (walk includeEmpty kvSeparator node path remain) = None"
      from k go r Node have "walk includeEmpty kvSeparator node path remain
          = walk_sequence includeEmpty kvSeparator content path
              (if remain > 0 then remain - 1 else remain) 0"
        by (simp add: walk_Sequence del: walk.simps)
      with n Node walk_sequence_children [of includeEmpty kvSeparator content path
          "if remain > 0 then remain - 1 else remain" 0]
      show "fst (walk includeEmpty kvSeparator node path remain)
        = concat (map (\<lambda>(i, item).
                         fst (walk includeEmpty kvSeparator item (with_index path i)
                                (if remain > 0 then remain - 1 else remain)))
                    (numbered 0 (Content node)))"
        by (simp del: walk.simps)
    qed
  qed
  show ?thesis by (intro conjI walk_lines(1) exact bound unlimited pairs items)
qed

theorem walk_depth_budget_witness:
  "walk False ''='' containers_values [] 2
     = ([''containers[0]=<object>'' @ [CHR 0x0A], ''containers[1]=<object>'' @ [CHR 0x0A],
         ''containers[2]=<object>'' @ [CHR 0x0A]], None)
   \<and> lines_of False ''='' 2 (descendants 0 [] containers_values)
     = [''containers[0]=<object>'' @ [CHR 0x0A], ''containers[1]=<object>'' @ [CHR 0x0A],
        ''containers[2]=<object>'' @ [CHR 0x0A]]
   \<and> (\<exists>x \<in> set (descendants 0 [] containers_values).
         int (fst x) \<le> 2 \<and> ''containers[0]=<object>'' @ [CHR 0x0A] \<in> set (node_lines ''='' 2 x))
   \<and> walk False ''='' containers_values [] (- 1) = walk False ''='' containers_values [] 3
   \<and> fst (walk False ''='' containers_values [] 2)
     = concat (map (\<lambda>(key, valueNode). fst (walk False ''='' valueNode ([] @ [key]) 1))
                 (mapping_pairs (Content containers_values)))
   \<and> fst (walk False ''=''
            (yaml_sequence [yaml_mapping [(''name'', yaml_scalar ''a'')],
                            yaml_mapping [(''name'', yaml_scalar ''b'')]])
            [''containers''] 1)
     = concat (map (\<lambda>(i, item). fst (walk False ''='' item (with_index [''containers''] i) 0))
                 (numbered 0 (Content
                    (yaml_sequence [yaml_mapping [(''name'', yaml_scalar ''a'')],
                                    yaml_mapping [(''name'', yaml_scalar ''b'')]]))))"
proof -
  let ?s = "yaml_sequence [yaml_mapping [(''name'', yaml_scalar ''a'')],
                            yaml_mapping [(''name'', yaml_scalar ''b'')]]"
  note limited = walk_depth_budget [of False "''=''" containers_values "[]" 2 3]
  note unlimited = walk_depth_budget [of False "''=''" containers_values "[]" "- 1" 3]
  note items = walk_depth_budget [of False "''=''" ?s "[''containers'']" 1 3]
  have w: "walk False ''='' containers_values [] 2
     = ([''containers[0]=<object>'' @ [CHR 0x0A], ''containers[1]=<object>'' @ [CHR 0x0A],
         ''containers[2]=<object>'' @ [CHR 0x0A]], None)"
    by (simp add: eval_defs)
  have l: "lines_of False ''='' 2 (descendants 0 [] containers_values)
     = [''containers[0]=<object>'' @ [CHR 0x0A], ''containers[1]=<object>'' @ [CHR 0x0A],
        ''containers[2]=<object>'' @ [CHR 0x0A]]"
    using limited [THEN conjunct2, THEN conjunct1] w by simp
  have b: "\<exists>x \<in> set (descendants 0 [] containers_values).
         int (fst x) \<le> 2 \<and> ''containers[0]=<object>'' @ [CHR 0x0A] \<in> set (node_lines ''='' 2 x)"
    using limited [THEN conjunct2, THEN conjunct2, THEN conjunct1] w by simp
  have u: "walk False ''='' containers_values [] (- 1) = walk False ''='' containers_values [] 3"
    using unlimited [THEN conjunct2, THEN conjunct2, THEN conjunct2, THEN conjunct1]
    by (simp add: eval_defs)
  have p: "fst (walk False ''='' containers_values [] 2)
     = concat (map (\<lambda>(key, valueNode). fst (walk False ''='' valueNode ([] @ [key]) 1))
                 (mapping_pairs (Content containers_values)))"
    using limited [THEN conjunct2, THEN conjunct2, THEN conjunct2, THEN conjunct2, THEN conjunct1] w
    by (simp add: containers_values_def yaml_mapping_def isEmptyNode_def)
  have i: "fst (walk False ''='' ?s [''containers''] 1)
     = concat (map (\<lambda>(i, item). fst (walk False ''='' item (with_index [''containers''] i) 0))
                 (numbered 0 (Content ?s)))"
    using items [THEN conjunct2, THEN conjunct2, THEN conjunct2, THEN conjunct2, THEN conjunct2]
    by (simp add: eval_defs with_index_def)
  from w l b u p i show ?thesis by blast
qed

end
